theory Spec2Isabelle
  imports Complex_Main
begin

section \<open>Shared data: JSON values, configuration, Python exceptions\<close>

text \<open>
  Detection events travel as JSON objects (\<^verbatim>\<open>json.loads\<close> on the controller side, plain
  \<^verbatim>\<open>dict\<close> literals on the detector side). A dictionary is kept as the list of its items;
  \<^verbatim>\<open>d.get(k)\<close> is \<open>dict_get\<close>, which answers \<open>JNull\<close> (Python's \<^verbatim>\<open>None\<close>) for a
  missing key. Floats are idealised as real numbers.
\<close>

datatype json =
    JNull
  | JBool bool
  | JNum real
  | JStr string
  | JList "json list"
  | JDict "(string \<times> json) list"

datatype py_error =
    AttributeError
  | TypeError
  | ValueError
  | RuntimeError string
  | TimeoutError string
  | IndentationError nat

fun truthy :: "json \<Rightarrow> bool" where
  "truthy JNull = False"
| "truthy (JBool b) = b"
| "truthy (JNum x) = (x \<noteq> 0)"
| "truthy (JStr s) = (s \<noteq> [])"
| "truthy (JList xs) = (xs \<noteq> [])"
| "truthy (JDict kvs) = (kvs \<noteq> [])"

definition dict_get :: "(string \<times> json) list \<Rightarrow> string \<Rightarrow> json" where
  "dict_get kvs k = (case map_of kvs k of None \<Rightarrow> JNull | Some v \<Rightarrow> v)"

text \<open>Python's \<^verbatim>\<open>str\<close> on an integer: its decimal digits.\<close>

fun str_nat :: "nat \<Rightarrow> string" where
  "str_nat n = (if n < 10 then [char_of (48 + n)] else str_nat (n div 10) @ [char_of (48 + n mod 10)])"

declare str_nat.simps [simp del]

definition str_int :: "int \<Rightarrow> string" where
  "str_int i = (if i < 0 then CHR ''-'' # str_nat (nat (- i)) else str_nat (nat i))"

text \<open>
  \<^verbatim>\<open>backend/detection_config.py\<close>: the values read from the environment at import time.
  Only the fields the modelled functions read are kept, under their source names.
\<close>

record config =
  WATCH_CLASSES :: "string set"
  CAPTURE_INTERVAL_SEC :: real
  YOLO_SERVER_HOST :: string
  YOLO_SERVER_PORT :: int
  STOP_TO_REVERSE_DELAY :: real
  REVERSE_DURATION :: real
  FORWARD_RESUME_DELAY :: real
  RESUME_WITH_FORWARD :: bool
  SSE_BACKOFF_SEC :: real
  MAX_EVENT_LOG_SIZE :: int

text \<open>The defaults of \<^verbatim>\<open>detection_config.py\<close> (no environment variable set).\<close>

definition default_config :: config where
  "default_config =
     \<lparr> WATCH_CLASSES = {''person'', ''bottle''},
       CAPTURE_INTERVAL_SEC = 1 / 2,
       YOLO_SERVER_HOST = ''127.0.0.1'',
       YOLO_SERVER_PORT = 8001,
       STOP_TO_REVERSE_DELAY = 1,
       REVERSE_DURATION = 3 / 2,
       FORWARD_RESUME_DELAY = 1,
       RESUME_WITH_FORWARD = True,
       SSE_BACKOFF_SEC = 2,
       MAX_EVENT_LOG_SIZE = 100 \<rparr>"

section \<open>The orchestrator runtime (\<^verbatim>\<open>orchestrator/main.py\<close>)\<close>

text \<open>
  The actuator line protocol of \<^verbatim>\<open>serial_cmds\<close>: \<^verbatim>\<open>STOP\<close>, \<^verbatim>\<open>FWD:<speed>\<close>,
  \<^verbatim>\<open>REV:<speed>:<duration>\<close>. A \<^verbatim>\<open>send\<close> returns a boolean that the safety sequence
  never reads, so a send is recorded as the command handed to the serial helper.
\<close>

datatype command = STOP | FWD int | REV int real

datatype effect =
    LockAcquire
  | LockRelease
  | Send command
  | Sleep real

text \<open>
  \<^verbatim>\<open>OrchestratorRuntime\<close>: the instance fields the event path touches, plus the two parts of
  the world it acts on: the wall clock read by \<^verbatim>\<open>time.time()\<close> and the ordered record of
  what the runtime did to the lock, the serial line and the clock, each entry stamped with
  the clock value at which it happened. Time passes in \<^verbatim>\<open>time.sleep\<close> only: taking the
  lock and writing to the serial line are idealised as instantaneous.
\<close>

record runtime =
  event_log :: "json list"
  last_detection :: "json option"
  serial_cooldown :: real
  clock :: real
  trace :: "(real \<times> effect) list"

text \<open>
  \<^verbatim>\<open>__init__\<close>: \<^verbatim>\<open>deque(maxlen=MAX_EVENT_LOG_SIZE)\<close> raises \<^verbatim>\<open>ValueError\<close> for a negative
  bound; \<^verbatim>\<open>_serial_cooldown\<close> starts at \<^verbatim>\<open>0.0\<close>.
\<close>

definition fresh_runtime :: "real \<Rightarrow> runtime" where
  "fresh_runtime t =
     \<lparr> event_log = [], last_detection = None, serial_cooldown = 0, clock = t, trace = [] \<rparr>"

definition init_runtime :: "config \<Rightarrow> real \<Rightarrow> py_error + runtime" where
  "init_runtime cfg t =
     (if MAX_EVENT_LOG_SIZE cfg < 0 then Inl ValueError else Inr (fresh_runtime t))"

text \<open>
  \<^verbatim>\<open>deque.appendleft\<close> on a deque bounded by \<open>maxlen\<close>: the item goes to the left end and,
  when the bound is exceeded, items fall off the right end.
\<close>

definition appendleft :: "int \<Rightarrow> 'a \<Rightarrow> 'a list \<Rightarrow> 'a list" where
  "appendleft maxlen x xs = take (nat maxlen) (x # xs)"

definition emit :: "effect \<Rightarrow> runtime \<Rightarrow> runtime" where
  "emit e rt = rt\<lparr>trace := trace rt @ [(clock rt, e)]\<rparr>"

text \<open>\<^verbatim>\<open>time.sleep(d)\<close>: \<^verbatim>\<open>ValueError\<close> for a negative length, else the clock moves on by \<open>d\<close>.\<close>

definition time_sleep :: "real \<Rightarrow> runtime \<Rightarrow> py_error option \<times> runtime" where
  "time_sleep d rt =
     (if d < 0 then (Some ValueError, rt)
      else (None, (emit (Sleep d) rt)\<lparr>clock := clock rt + d\<rparr>))"

text \<open>
  \<^verbatim>\<open>_execute_safety_sequence\<close>. The \<^verbatim>\<open>with self.serial_lock\<close> block releases the lock on
  every exit, the early \<^verbatim>\<open>return\<close> and a propagating exception included.
  \<^verbatim>\<open>reverse.send(duration=...)\<close> uses the helper's default speed 80 and
  \<^verbatim>\<open>forward.send()\<close> its default speed 100.
\<close>

definition execute_safety_sequence :: "config \<Rightarrow> json \<Rightarrow> runtime \<Rightarrow> py_error option \<times> runtime" where
  "execute_safety_sequence cfg payload rt =
     (let now = clock rt;
          rt1 = emit LockAcquire rt
      in if now - serial_cooldown rt1 < REVERSE_DURATION cfg then (None, emit LockRelease rt1)
         else
           (let rt2 = emit (Send STOP) rt1
            in case time_sleep (STOP_TO_REVERSE_DELAY cfg) rt2 of
                 (Some e, rt3) \<Rightarrow> (Some e, emit LockRelease rt3)
               | (None, rt3) \<Rightarrow>
                   (let rt4 = emit (Send (REV 80 (REVERSE_DURATION cfg))) rt3;
                        rt5 = rt4\<lparr>serial_cooldown := clock rt4\<rparr>
                    in if RESUME_WITH_FORWARD cfg then
                         (case time_sleep (FORWARD_RESUME_DELAY cfg) rt5 of
                            (Some e, rt6) \<Rightarrow> (Some e, emit LockRelease rt6)
                          | (None, rt6) \<Rightarrow> (None, emit LockRelease (emit (Send (FWD 100)) rt6)))
                       else (None, emit LockRelease rt5))))"

text \<open>
  \<^verbatim>\<open>label in WATCH_CLASSES\<close> for a truthy JSON label: a string is looked up, a number or a
  boolean is hashable and equal to no string, a list or a dictionary is unhashable.
\<close>

fun label_in :: "json \<Rightarrow> string set \<Rightarrow> py_error + bool" where
  "label_in (JStr s) W = Inr (s \<in> W)"
| "label_in (JList xs) W = Inl TypeError"
| "label_in (JDict kvs) W = Inl TypeError"
| "label_in v W = Inr False"

text \<open>
  \<^verbatim>\<open>_handle_event\<close>. \<^verbatim>\<open>event.get\<close> and \<^verbatim>\<open>payload.get\<close> exist on dictionaries only;
  \<^verbatim>\<open>event.get("payload") or {}\<close> replaces a falsy payload by the empty dictionary.
\<close>

definition handle_event :: "config \<Rightarrow> json \<Rightarrow> runtime \<Rightarrow> py_error option \<times> runtime" where
  "handle_event cfg event rt =
     (case event of
        JDict ev \<Rightarrow>
          if dict_get ev ''type'' \<noteq> JStr ''detection'' then (None, rt)
          else
            (let payload = (if truthy (dict_get ev ''payload'') then dict_get ev ''payload''
                            else JDict [])
             in case payload of
                  JDict pl \<Rightarrow>
                    (let label = dict_get pl ''label''
                     in if \<not> truthy label then (None, rt)
                        else
                          (let rt1 = rt\<lparr>last_detection := Some payload\<rparr>;
                               rt2 = rt1\<lparr>event_log :=
                                       appendleft (MAX_EVENT_LOG_SIZE cfg) payload (event_log rt1)\<rparr>
                           in case label_in label (WATCH_CLASSES cfg) of
                                Inl e \<Rightarrow> (Some e, rt2)
                              | Inr True \<Rightarrow> execute_safety_sequence cfg payload rt2
                              | Inr False \<Rightarrow> (None, rt2)))
                | _ \<Rightarrow> (Some AttributeError, rt))
      | _ \<Rightarrow> (Some AttributeError, rt))"

text \<open>
  The handler entered when \<^verbatim>\<open>time.time()\<close> reads \<open>t\<close>, and a run of the handler over
  events with their handling times; an exception ends the run, as it ends the thread that
  delivers the events.
\<close>

definition handle_event_at :: "config \<Rightarrow> real \<Rightarrow> json \<Rightarrow> runtime \<Rightarrow> py_error option \<times> runtime" where
  "handle_event_at cfg t event rt = handle_event cfg event (rt\<lparr>clock := t\<rparr>)"

fun run_events :: "config \<Rightarrow> (real \<times> json) list \<Rightarrow> runtime \<Rightarrow> py_error option \<times> runtime" where
  "run_events cfg [] rt = (None, rt)"
| "run_events cfg ((t, event) # rest) rt =
     (case handle_event_at cfg t event rt of
        (Some e, rt') \<Rightarrow> (Some e, rt')
      | (None, rt') \<Rightarrow> run_events cfg rest rt')"

subsection \<open>Vocabulary for the statements about the sequencer\<close>

text \<open>
  A decoded event \<open>JDict ev\<close> is a detection event carrying the label \<open>l\<close> when its type is
  \<^verbatim>\<open>"detection"\<close>, its payload is the dictionary \<open>pl\<close> and \<open>pl\<close> holds the non-empty string
  \<open>l\<close> under \<^verbatim>\<open>"label"\<close>.
\<close>

definition label_event :: "(string \<times> json) list \<Rightarrow> (string \<times> json) list \<Rightarrow> string \<Rightarrow> bool" where
  "label_event ev pl l \<longleftrightarrow>
     dict_get ev ''type'' = JStr ''detection'' \<and> dict_get ev ''payload'' = JDict pl \<and>
     dict_get pl ''label'' = JStr l \<and> l \<noteq> []"

text \<open>The smallest such event, used where a statement is evaluated on concrete data.\<close>

definition label_payload :: "string \<Rightarrow> (string \<times> json) list" where
  "label_payload l = [(''label'', JStr l)]"

definition label_message :: "string \<Rightarrow> (string \<times> json) list" where
  "label_message l = [(''type'', JStr ''detection''), (''payload'', JDict (label_payload l))]"

text \<open>
  The spec's ordered action sequence (section 4.3, steps 1 to 6), started at time \<open>t\<close>, written
  from the spec's words to be compared with what \<open>execute_safety_sequence\<close> records.
\<close>

definition action_effects :: "config \<Rightarrow> real \<Rightarrow> (real \<times> effect) list" where
  "action_effects cfg t =
     [(t, LockAcquire), (t, Send STOP), (t, Sleep (STOP_TO_REVERSE_DELAY cfg)),
      (t + STOP_TO_REVERSE_DELAY cfg, Send (REV 80 (REVERSE_DURATION cfg)))]
     @ (if RESUME_WITH_FORWARD cfg
        then [(t + STOP_TO_REVERSE_DELAY cfg, Sleep (FORWARD_RESUME_DELAY cfg)),
              (t + STOP_TO_REVERSE_DELAY cfg + FORWARD_RESUME_DELAY cfg, Send (FWD 100)),
              (t + STOP_TO_REVERSE_DELAY cfg + FORWARD_RESUME_DELAY cfg, LockRelease)]
        else [(t + STOP_TO_REVERSE_DELAY cfg, LockRelease)])"

text \<open>
  The configured delays are lengths of time: \<^verbatim>\<open>time.sleep\<close> rejects a negative one, so a
  sequence can only run to its end when the delays it waits for are non-negative.
\<close>

definition delays_ok :: "config \<Rightarrow> bool" where
  "delays_ok cfg \<longleftrightarrow>
     0 \<le> STOP_TO_REVERSE_DELAY cfg \<and>
     (if RESUME_WITH_FORWARD cfg then 0 \<le> FORWARD_RESUME_DELAY cfg else True)"

text \<open>The commands handed to the serial line, with the times at which they were sent.\<close>

fun sent :: "(real \<times> effect) list \<Rightarrow> (real \<times> command) list" where
  "sent [] = []"
| "sent ((t, Send c) # tr) = (t, c) # sent tr"
| "sent (_ # tr) = sent tr"




section \<open>The streaming event client (\<^verbatim>\<open>orchestrator/events_client.py\<close>)\<close>

text \<open>
  One pass of the \<^verbatim>\<open>while\<close> loop of \<^verbatim>\<open>_run\<close> opens one connection. What the network does
  with it is the input: the connection fails before any line is read (\<^verbatim>\<open>session.get\<close> or
  \<^verbatim>\<open>raise_for_status\<close> raises a \<^verbatim>\<open>RequestException\<close>), it delivers some lines and then
  breaks (\<^verbatim>\<open>iter_lines\<close> raises a \<^verbatim>\<open>RequestException\<close>), or it delivers some lines and
  ends, the server having closed the stream or the stop event having been seen.
\<close>

datatype attempt =
    ConnectFailed
  | StreamBroke "string list"
  | StreamEnded "string list"

text \<open>
  What the client does, in order: opening a connection, a call of \<^verbatim>\<open>_dispatch\<close> with the
  raw event, the warning logged for a connection error, and \<^verbatim>\<open>time.sleep(backoff)\<close>.
\<close>

datatype client_effect =
    Connect
  | Dispatch string
  | Warning
  | BackoffSleep real

text \<open>\<^verbatim>\<open>"\n".join(event_lines)\<close>.\<close>

fun join_lines :: "string list \<Rightarrow> string" where
  "join_lines [] = []"
| "join_lines [l] = l"
| "join_lines (l # ls) = l @ [CHR 0x0A] @ join_lines ls"

text \<open>
  The \<^verbatim>\<open>for line in response.iter_lines(...)\<close> loop: a blank line dispatches the lines
  gathered so far, if any, and clears them; any other line is gathered.
\<close>

fun read_lines :: "string list \<Rightarrow> string list \<Rightarrow> client_effect list" where
  "read_lines event_lines [] = []"
| "read_lines event_lines (line # rest) =
     (if line = [] then
        (if event_lines \<noteq> [] then Dispatch (join_lines event_lines) # read_lines [] rest
         else read_lines event_lines rest)
      else read_lines (event_lines @ [line]) rest)"

text \<open>
  The \<^verbatim>\<open>while not self._stop_event.is_set()\<close> loop with its local \<^verbatim>\<open>backoff\<close>, run until
  the listed connections are used up (the stop event is then set). The assignment
  \<^verbatim>\<open>backoff = detection_config.SSE_BACKOFF_SEC\<close> follows the \<^verbatim>\<open>with\<close> block, so it is
  reached only when that block ends without an exception; the \<^verbatim>\<open>except\<close> branch sleeps
  and then doubles the backoff under the literal cap 30. \<^verbatim>\<open>time.sleep\<close> raises
  \<^verbatim>\<open>ValueError\<close> for a negative length, which nothing catches.
\<close>

fun run_loop :: "config \<Rightarrow> real \<Rightarrow> attempt list \<Rightarrow> client_effect list \<times> py_error option" where
  "run_loop cfg backoff [] = ([], None)"
| "run_loop cfg backoff (ConnectFailed # rest) =
     (if backoff < 0 then ([Connect, Warning], Some ValueError)
      else (let (tr, r) = run_loop cfg (min (backoff * 2) 30) rest
            in (Connect # Warning # BackoffSleep backoff # tr, r)))"
| "run_loop cfg backoff (StreamBroke ls # rest) =
     (if backoff < 0 then (Connect # read_lines [] ls @ [Warning], Some ValueError)
      else (let (tr, r) = run_loop cfg (min (backoff * 2) 30) rest
            in (Connect # read_lines [] ls @ Warning # BackoffSleep backoff # tr, r)))"
| "run_loop cfg backoff (StreamEnded ls # rest) =
     (let (tr, r) = run_loop cfg (SSE_BACKOFF_SEC cfg) rest
      in (Connect # read_lines [] ls @ tr, r))"

text \<open>\<^verbatim>\<open>_run\<close>: the loop entered with \<^verbatim>\<open>backoff = detection_config.SSE_BACKOFF_SEC\<close>.\<close>

definition run_client :: "config \<Rightarrow> attempt list \<Rightarrow> client_effect list \<times> py_error option" where
  "run_client cfg attempts = run_loop cfg (SSE_BACKOFF_SEC cfg) attempts"

text \<open>The lengths of the sleeps of a run, in order.\<close>

fun sleeps :: "client_effect list \<Rightarrow> real list" where
  "sleeps [] = []"
| "sleeps (BackoffSleep d # tr) = d # sleeps tr"
| "sleeps (_ # tr) = sleeps tr"

section \<open>The detector (\<^verbatim>\<open>backend/yolo_server.py\<close>)\<close>

text \<open>
  \<^verbatim>\<open>DetectionState\<close>. The subscriber queues are \<^verbatim>\<open>asyncio.Queue\<close> objects, compared by
  identity (\<^verbatim>\<open>queue in self.event_queues\<close>, \<^verbatim>\<open>list.remove\<close>): a queue is the number it
  was allocated under, \<open>next_queue\<close> is the allocator, and \<open>queue_items\<close> holds what each
  queue object contains. \<^verbatim>\<open>loop\<close> is the optional event loop; the loop is kept as the
  coroutines \<^verbatim>\<open>queue.put(payload)\<close> handed to it and not yet run, oldest first.
  \<open>yielded q\<close> is what the generator \<^verbatim>\<open>_event_publisher\<close> of queue \<open>q\<close> has yielded to its
  subscriber, recorded by payload (the frame yielded is a function of the payload).
  The field \<^verbatim>\<open>last_detection\<close> carries a suffix, the name being a field of the
  orchestrator's runtime too.
\<close>

record detection_state =
  last_detection_s :: "json option"
  last_frame_b64 :: "string option"
  event_queues :: "nat list"
  loop :: "(nat \<times> json) list option"
  next_queue :: nat
  queue_items :: "nat \<Rightarrow> json list"
  yielded :: "nat \<Rightarrow> json list"

text \<open>\<^verbatim>\<open>DetectionState.__init__\<close>.\<close>

definition init_state :: detection_state where
  "init_state =
     \<lparr> last_detection_s = None, last_frame_b64 = None, event_queues = [], loop = None,
       next_queue = 0, queue_items = (\<lambda>_. []), yielded = (\<lambda>_. []) \<rparr>"

text \<open>\<^verbatim>\<open>set_event_loop\<close>, called once by \<^verbatim>\<open>on_startup\<close> with the running loop.\<close>

definition set_event_loop :: "detection_state \<Rightarrow> detection_state" where
  "set_event_loop st = st\<lparr>loop := Some []\<rparr>"

text \<open>
  \<^verbatim>\<open>register_queue\<close>: \<^verbatim>\<open>asyncio.Queue()\<close> makes a new, empty, unbounded queue, which is
  appended to the list and returned.
\<close>

definition register_queue :: "detection_state \<Rightarrow> nat \<times> detection_state" where
  "register_queue st =
     (let queue = next_queue st
      in (queue, st\<lparr>next_queue := Suc queue,
                     queue_items := (queue_items st)(queue := []),
                     event_queues := event_queues st @ [queue]\<rparr>))"

text \<open>\<^verbatim>\<open>unregister_queue\<close>: \<^verbatim>\<open>list.remove\<close> takes out the first occurrence.\<close>

definition unregister_queue :: "nat \<Rightarrow> detection_state \<Rightarrow> detection_state" where
  "unregister_queue queue st =
     (if queue \<in> set (event_queues st)
      then st\<lparr>event_queues := remove1 queue (event_queues st)\<rparr>
      else st)"

text \<open>
  \<^verbatim>\<open>asyncio.run_coroutine_threadsafe(queue.put(payload), self.loop)\<close> hands the coroutine
  to the loop and returns at once. \<open>broadcast\<close> copies the queue list and walks the copy,
  skipping every queue while no loop is set.
\<close>

definition run_coroutine_threadsafe :: "nat \<Rightarrow> json \<Rightarrow> detection_state \<Rightarrow> detection_state" where
  "run_coroutine_threadsafe queue payload st =
     (case loop st of
        None \<Rightarrow> st
      | Some scheduled \<Rightarrow> st\<lparr>loop := Some (scheduled @ [(queue, payload)])\<rparr>)"

definition broadcast :: "json \<Rightarrow> detection_state \<Rightarrow> detection_state" where
  "broadcast payload st =
     (let queues = event_queues st
      in fold (\<lambda>queue s. if loop s = None then s else run_coroutine_threadsafe queue payload s)
           queues st)"

text \<open>
  The event loop runs the oldest coroutine handed to it: \<^verbatim>\<open>queue.put\<close> on a queue with no
  bound never waits, so the payload joins the queue's items.
\<close>

definition loop_step :: "detection_state \<Rightarrow> detection_state" where
  "loop_step st =
     (case loop st of
        Some ((queue, payload) # rest) \<Rightarrow>
          st\<lparr>loop := Some rest,
             queue_items := (queue_items st)(queue := queue_items st queue @ [payload])\<rparr>
      | _ \<Rightarrow> st)"

text \<open>
  One pass of the \<^verbatim>\<open>while True\<close> loop of \<^verbatim>\<open>_event_publisher\<close>: \<^verbatim>\<open>await queue.get()\<close>
  takes the oldest item and the generator yields it; on an empty queue it waits.
\<close>

definition event_publisher_step :: "nat \<Rightarrow> detection_state \<Rightarrow> detection_state" where
  "event_publisher_step queue st =
     (case queue_items st queue of
        [] \<Rightarrow> st
      | payload # rest \<Rightarrow>
          st\<lparr>queue_items := (queue_items st)(queue := rest),
             yielded := (yielded st)(queue := yielded st queue @ [payload])\<rparr>)"

text \<open>
  What can happen to the hub after start-up, in any order: a subscriber connects to
  \<^verbatim>\<open>/events\<close>, a generator is closed (its \<^verbatim>\<open>finally\<close> unregisters its queue), the detection
  thread broadcasts, the event loop runs a scheduled coroutine, a generator takes an item.
\<close>

datatype hub_op =
    Register
  | Unregister nat
  | Broadcast json
  | LoopStep
  | PublisherStep nat

fun hub_step :: "hub_op \<Rightarrow> detection_state \<Rightarrow> detection_state" where
  "hub_step Register st = snd (register_queue st)"
| "hub_step (Unregister q) st = unregister_queue q st"
| "hub_step (Broadcast p) st = broadcast p st"
| "hub_step LoopStep st = loop_step st"
| "hub_step (PublisherStep q) st = event_publisher_step q st"

fun run_ops :: "hub_op list \<Rightarrow> detection_state \<Rightarrow> detection_state" where
  "run_ops [] st = st"
| "run_ops (op # ops) st = run_ops ops (hub_step op st)"

text \<open>
  For the statements: the coroutines waiting in the loop, and the stream of a queue, which
  is everything published to it so far in the order in which its subscriber gets it: what
  was yielded, then what waits in the queue, then what the loop has yet to put there.
\<close>

definition scheduled :: "detection_state \<Rightarrow> (nat \<times> json) list" where
  "scheduled st = (case loop st of None \<Rightarrow> [] | Some cbs \<Rightarrow> cbs)"

definition stream :: "nat \<Rightarrow> detection_state \<Rightarrow> json list" where
  "stream q st = yielded st q @ queue_items st q @ map snd (filter (\<lambda>cb. fst cb = q) (scheduled st))"


text \<open>
  What holds of every state the hub reaches from \<open>init_state\<close>: no queue is listed twice,
  and only allocated queues are listed, scheduled for, filled or read.
\<close>

definition hub_inv :: "detection_state \<Rightarrow> bool" where
  "hub_inv st \<longleftrightarrow>
     distinct (event_queues st) \<and>
     list_all (\<lambda>q. q < next_queue st) (event_queues st) \<and>
     list_all (\<lambda>cb. fst cb < next_queue st) (scheduled st) \<and>
     (\<forall>q. next_queue st \<le> q \<longrightarrow> queue_items st q = [] \<and> yielded st q = [])"

text \<open>The state \<^verbatim>\<open>on_startup\<close> leaves before the detection thread starts.\<close>

definition started_state :: detection_state where
  "started_state = set_event_loop init_state"

subsection \<open>The capture and inference loop\<close>

text \<open>
  What the camera and the model hand to one pass of \<^verbatim>\<open>_detection_loop\<close>, both outside the
  spec's core: a box with its class index, its confidence and the row
  \<^verbatim>\<open>box.xyxy.tolist()[0]\<close>; a result with its optional boxes and, when it has the attribute,
  its \<^verbatim>\<open>names\<close> dictionary; and a capture with \<^verbatim>\<open>ret\<close>, the base64 text of the encoded
  frame (none when \<^verbatim>\<open>cv2.imencode\<close> fails), the value \<^verbatim>\<open>time.time()\<close> returns and the
  model's results for the frame.
\<close>

record box =
  cls :: int
  conf :: real
  xyxy :: "real list"

record result =
  boxes :: "box list option"
  names :: "(int \<times> string) list option"

record capture =
  ret :: bool
  frame_b64 :: "string option"
  now :: real
  results :: "result list"

text \<open>
  \<^verbatim>\<open>r.names.get(cls_idx, str(cls_idx)) if hasattr(r, "names") else str(cls_idx)\<close>.
\<close>

definition label_of :: "result \<Rightarrow> int \<Rightarrow> string" where
  "label_of r cls_idx =
     (case names r of
        None \<Rightarrow> str_int cls_idx
      | Some ns \<Rightarrow> (case map_of ns cls_idx of None \<Rightarrow> str_int cls_idx | Some l \<Rightarrow> l))"

text \<open>The dictionary literal \<^verbatim>\<open>detection_payload\<close> of the loop.\<close>

definition detection_payload :: "string \<Rightarrow> real \<Rightarrow> real list \<Rightarrow> real \<Rightarrow> json" where
  "detection_payload label c bbox t =
     JDict [(''label'', JStr label), (''confidence'', JNum c),
            (''bbox'', JList (map JNum bbox)), (''timestamp'', JNum t)]"

text \<open>The two nested \<^verbatim>\<open>for\<close> loops that fill \<^verbatim>\<open>detections\<close>.\<close>

fun box_detections :: "config \<Rightarrow> real \<Rightarrow> result \<Rightarrow> box list \<Rightarrow> json list" where
  "box_detections cfg t r [] = []"
| "box_detections cfg t r (b # bs) =
     (let cls_idx = cls b;
          label = label_of r cls_idx;
          c = conf b
      in if label \<notin> WATCH_CLASSES cfg then box_detections cfg t r bs
         else detection_payload label c (xyxy b) t # box_detections cfg t r bs)"

fun frame_detections :: "config \<Rightarrow> real \<Rightarrow> result list \<Rightarrow> json list" where
  "frame_detections cfg t [] = []"
| "frame_detections cfg t (r # rs) =
     (case boxes r of
        None \<Rightarrow> frame_detections cfg t rs
      | Some bs \<Rightarrow> box_detections cfg t r bs @ frame_detections cfg t rs)"

text \<open>
  \<^verbatim>\<open>max(detections, key=lambda d: d["confidence"])\<close>: Python's \<^verbatim>\<open>max\<close> keeps the first
  of several greatest items. Every payload the loop builds holds a number under
  \<^verbatim>\<open>"confidence"\<close>.
\<close>

definition confidence_key :: "json \<Rightarrow> real" where
  "confidence_key d =
     (case d of
        JDict kvs \<Rightarrow> (case dict_get kvs ''confidence'' of JNum c \<Rightarrow> c | _ \<Rightarrow> 0)
      | _ \<Rightarrow> 0)"

fun max_by :: "('a \<Rightarrow> real) \<Rightarrow> 'a \<Rightarrow> 'a list \<Rightarrow> 'a" where
  "max_by key best [] = best"
| "max_by key best (x # xs) = max_by key (if key best < key x then x else best) xs"

text \<open>The broadcast payload \<^verbatim>\<open>{"type": "detection", "payload": top}\<close>.\<close>

definition detection_event :: "json \<Rightarrow> json" where
  "detection_event payload = JDict [(''type'', JStr ''detection''), (''payload'', payload)]"

text \<open>\<^verbatim>\<open>update_frame\<close>, \<^verbatim>\<open>update_detection\<close>.\<close>

definition update_frame :: "string option \<Rightarrow> detection_state \<Rightarrow> detection_state" where
  "update_frame encoded st =
     (case encoded of None \<Rightarrow> st | Some b64 \<Rightarrow> st\<lparr>last_frame_b64 := Some b64\<rparr>)"

definition update_detection :: "json \<Rightarrow> detection_state \<Rightarrow> detection_state" where
  "update_detection detection st = st\<lparr>last_detection_s := Some detection\<rparr>"

text \<open>
  One pass of the \<^verbatim>\<open>while\<close> loop of \<^verbatim>\<open>_detection_loop\<close>, on the local \<^verbatim>\<open>last_emit\<close> and the
  shared state; \<open>detection_loop\<close> runs it over the captures read until the stop event is
  set.
\<close>

definition detection_loop_step ::
  "config \<Rightarrow> capture \<Rightarrow> real \<times> detection_state \<Rightarrow> real \<times> detection_state" where
  "detection_loop_step cfg c s =
     (let last_emit = fst s; st = snd s
      in if \<not> ret c then (last_emit, st)
         else
           (let st1 = update_frame (frame_b64 c) st
            in if now c - last_emit < CAPTURE_INTERVAL_SEC cfg then (last_emit, st1)
               else
                 (case frame_detections cfg (now c) (results c) of
                    [] \<Rightarrow> (now c, st1)
                  | d # ds \<Rightarrow>
                      (let top_d = max_by confidence_key d ds
                       in (now c, broadcast (detection_event top_d)
                                    (update_detection top_d st1))))))"

definition detection_loop :: "config \<Rightarrow> capture list \<Rightarrow> detection_state \<Rightarrow> detection_state" where
  "detection_loop cfg captures st = snd (fold (detection_loop_step cfg) captures (0, st))"

text \<open>
  For the statements: the boxes of a frame whose label is in the watch set, with their
  labels, in the order of the model's results; the label of a payload; and whether a pass
  gets as far as running the model (the frame was read and the capture interval is over).
\<close>

definition watched_boxes :: "config \<Rightarrow> result list \<Rightarrow> (string \<times> box) list" where
  "watched_boxes cfg rs =
     filter (\<lambda>lb. fst lb \<in> WATCH_CLASSES cfg)
       (concat (map (\<lambda>r. case boxes r of None \<Rightarrow> []
                                | Some bs \<Rightarrow> map (\<lambda>b. (label_of r (cls b), b)) bs) rs))"

definition payload_label :: "json \<Rightarrow> json" where
  "payload_label d = (case d of JDict kvs \<Rightarrow> dict_get kvs ''label'' | _ \<Rightarrow> JNull)"

definition processed :: "config \<Rightarrow> capture \<Rightarrow> real \<Rightarrow> bool" where
  "processed cfg c last_emit \<longleftrightarrow> ret c \<and> \<not> now c - last_emit < CAPTURE_INTERVAL_SEC cfg"

text \<open>A frame with a person at 0.6, a dog at 0.99 and a bottle at 0.8.\<close>

definition example_capture :: capture where
  "example_capture =
     \<lparr> ret = True, frame_b64 = Some ''aGk='', now = 10,
       results = [\<lparr> boxes = Some [\<lparr> cls = 0, conf = 3 / 5, xyxy = [0, 0, 10, 10] \<rparr>,
                                   \<lparr> cls = 16, conf = 99 / 100, xyxy = [5, 5, 20, 20] \<rparr>,
                                   \<lparr> cls = 39, conf = 4 / 5, xyxy = [1, 2, 3, 4] \<rparr>],
                    names = Some [(0, ''person''), (16, ''dog''), (39, ''bottle'')] \<rparr>] \<rparr>"

section \<open>The supervisor's health wait (\<^verbatim>\<open>orchestrator/main.py\<close>)\<close>

text \<open>
  What one pass of the loop of \<^verbatim>\<open>_wait_for_yolo_health\<close> observes: what
  \<^verbatim>\<open>self.yolo_process.poll()\<close> returns (an exit code once the child has exited), what
  \<^verbatim>\<open>requests.get(url, timeout=3)\<close> does (a response with its status code, or a
  \<^verbatim>\<open>RequestException\<close>), and how long the request takes, in whole milliseconds.
\<close>

datatype http_result = Status int | RequestException

record probe =
  poll :: "int option"
  response :: http_result
  elapsed_ms :: nat

text \<open>
  What the wait does, each entry stamped with the clock value: the request, the sleep of
  one second, the error record logged with the child's exit code, the info record logged
  on success.
\<close>

datatype health_effect =
    HttpGet string
  | SleepFor real
  | LogError string int
  | LogInfo string

definition elapsed :: "probe \<Rightarrow> real" where
  "elapsed p = real (elapsed_ms p) / 1000"

text \<open>
  \<^verbatim>\<open>f"http://{YOLO_SERVER_HOST}:{YOLO_SERVER_PORT}/health"\<close>.
\<close>

definition health_url :: "config \<Rightarrow> string" where
  "health_url cfg =
     ''http://'' @ YOLO_SERVER_HOST cfg @ '':'' @ str_int (YOLO_SERVER_PORT cfg) @ ''/health''"

text \<open>
  The \<^verbatim>\<open>while time.time() - start_time < timeout\<close> loop, at its \<open>i\<close>-th pass with the clock
  at \<open>t\<close>. \<open>tracked\<close> says whether \<^verbatim>\<open>self.yolo_process\<close> is set. The clock moves on by the
  time the request takes and by the sleep of one second, so every pass brings the deadline
  at least a second nearer and the loop ends.
\<close>

function wait_loop ::
  "string \<Rightarrow> bool \<Rightarrow> (nat \<Rightarrow> probe) \<Rightarrow> real \<Rightarrow> real \<Rightarrow> nat \<Rightarrow> real
     \<Rightarrow> (real \<times> health_effect) list \<times> py_error option" where
  "wait_loop url tracked env timeout start_time i t =
     (if t - start_time < timeout then
        (case (if tracked then poll (env i) else None) of
           Some returncode \<Rightarrow>
             ([(t, LogError ''YOLO server exited early with code %s'' returncode)],
              Some (RuntimeError ''YOLO server process terminated unexpectedly''))
         | None \<Rightarrow>
             (if response (env i) = Status 200
              then ([(t, HttpGet url), (t + elapsed (env i), LogInfo ''YOLO health endpoint reachable'')],
                    None)
              else
                (let r = wait_loop url tracked env timeout start_time (Suc i)
                           (t + elapsed (env i) + 1)
                 in ((t, HttpGet url) # (t + elapsed (env i), SleepFor 1) # fst r, snd r))))
      else ([], Some (TimeoutError (''Timed out waiting for YOLO health endpoint at '' @ url))))"
  by pat_completeness auto

termination
proof (relation "measure (\<lambda>(url, tracked, env, timeout, start_time, i, t).
                    nat \<lceil>timeout - (t - start_time)\<rceil>)", goal_cases)
  case 1
  then show ?case by simp
next
  case (2 url tracked env timeout start_time i t)
  have e: "0 \<le> elapsed (env i)" by (simp add: elapsed_def)
  let ?x = "timeout - (t - start_time)"
  have pos: "0 < ?x" using 2 by simp
  have "timeout - (t + elapsed (env i) + 1 - start_time) \<le> ?x - 1" using e by simp
  then have "\<lceil>timeout - (t + elapsed (env i) + 1 - start_time)\<rceil> \<le> \<lceil>?x - 1\<rceil>"
    by (rule ceiling_mono)
  also have "\<dots> = \<lceil>?x\<rceil> - 1" by simp
  finally have le: "\<lceil>timeout - (t + elapsed (env i) + 1 - start_time)\<rceil> \<le> \<lceil>?x\<rceil> - 1" .
  have "0 < \<lceil>?x\<rceil>" using pos by simp
  with le show ?case by simp
qed

declare wait_loop.simps [simp del]

text \<open>\<^verbatim>\<open>_wait_for_yolo_health\<close>, entered when the clock reads \<open>t0\<close>.\<close>

definition wait_for_yolo_health ::
  "config \<Rightarrow> bool \<Rightarrow> (nat \<Rightarrow> probe) \<Rightarrow> real \<Rightarrow> real
     \<Rightarrow> (real \<times> health_effect) list \<times> py_error option" where
  "wait_for_yolo_health cfg tracked env timeout t0 =
     wait_loop (health_url cfg) tracked env timeout t0 0 t0"

text \<open>
  For the statements: a pass that neither sees the child exited nor gets status 200; the
  clock value at which the \<open>k\<close>-th pass starts when all passes before it were of that kind;
  and what such a pass does.
\<close>

definition inconclusive :: "bool \<Rightarrow> probe \<Rightarrow> bool" where
  "inconclusive tracked p \<longleftrightarrow> (if tracked then poll p = None else True) \<and> response p \<noteq> Status 200"

fun poll_time :: "(nat \<Rightarrow> probe) \<Rightarrow> real \<Rightarrow> nat \<Rightarrow> real" where
  "poll_time env t0 0 = t0"
| "poll_time env t0 (Suc k) = poll_time env t0 k + elapsed (env k) + 1"

definition poll_effects :: "string \<Rightarrow> (nat \<Rightarrow> probe) \<Rightarrow> real \<Rightarrow> nat \<Rightarrow> (real \<times> health_effect) list" where
  "poll_effects url env t0 j =
     [(poll_time env t0 j, HttpGet url), (poll_time env t0 j + elapsed (env j), SleepFor 1)]"

text \<open>
  Three worlds to evaluate the wait in: the child has exited with code \<open>rc\<close>; the endpoint
  answers 503 at once, for ever; the connection is refused \<open>n\<close> times and then the
  endpoint answers 200, each request taking half a second.
\<close>

definition exited_env :: "int \<Rightarrow> nat \<Rightarrow> probe" where
  "exited_env rc i = \<lparr> poll = Some rc, response = RequestException, elapsed_ms = 0 \<rparr>"

definition never_healthy_env :: "nat \<Rightarrow> probe" where
  "never_healthy_env i = \<lparr> poll = None, response = Status 503, elapsed_ms = 0 \<rparr>"

definition healthy_from_env :: "nat \<Rightarrow> nat \<Rightarrow> probe" where
  "healthy_from_env n i =
     \<lparr> poll = None, response = (if i < n then RequestException else Status 200),
       elapsed_ms = 500 \<rparr>"

section \<open>Loading the discovery helper (\<^verbatim>\<open>orchestrator/mdns_discover.py\<close>)\<close>

text \<open>
  A module is compiled before any of its functions can be called. Of Python's grammar one
  rule is modelled, on the non-blank lines of a file with their line numbers: a line that
  ends in a colon opens a block, and the next line has to be indented deeper than it;
  otherwise compiling fails with an \<^verbatim>\<open>IndentationError\<close> at that next line (after the last
  line of the file when nothing follows).
\<close>

definition indent_of :: "string \<Rightarrow> nat" where
  "indent_of l = length (takeWhile (\<lambda>c. c = CHR '' '') l)"

definition opens_block :: "string \<Rightarrow> bool" where
  "opens_block l \<longleftrightarrow> l \<noteq> [] \<and> last l = CHR '':''"

fun check_blocks :: "(nat \<times> string) list \<Rightarrow> py_error option" where
  "check_blocks [] = None"
| "check_blocks [(n, l)] = (if opens_block l then Some (IndentationError (Suc n)) else None)"
| "check_blocks ((n, l) # (m, l') # rest) =
     (if opens_block l \<and> indent_of l' \<le> indent_of l then Some (IndentationError m)
      else check_blocks ((m, l') # rest))"

text \<open>
  Lines 2 to 9 of \<^verbatim>\<open>mdns_discover.py\<close> as they stand in the source (line 1 is the module's
  docstring, lines 3 and 8 are blank). Line 4 repeats the header of \<^verbatim>\<open>discover_first\<close>, whose
  definition with its body starts at line 14.
\<close>

definition mdns_discover_head :: "(nat \<times> string) list" where
  "mdns_discover_head =
     [(2, ''from __future__ import annotations''),
      (4, ''def discover_first(service_type: str, timeout: float = 3.0) -> Optional[dict]:''),
      (5, ''import logging''),
      (6, ''import threading''),
      (7, ''from typing import Optional''),
      (9, ''from zeroconf import ServiceBrowser, ServiceStateChange, Zeroconf'')]"

section \<open>Properties of the safety sequencer\<close>

lemmas eval_defs = handle_event_at_def handle_event_def execute_safety_sequence_def time_sleep_def
  emit_def appendleft_def dict_get_def Let_def default_config_def fresh_runtime_def
  label_message_def label_payload_def action_effects_def

lemma label_event_nonempty: "label_event ev pl l \<Longrightarrow> pl \<noteq> []"
  by (auto simp: label_event_def dict_get_def)

lemma label_message_event: "l \<noteq> [] \<Longrightarrow> label_event (label_message l) (label_payload l) l"
  by (simp add: label_event_def label_message_def label_payload_def dict_get_def)


lemma handle_event_label:
  assumes "label_event ev pl l"
  shows "handle_event cfg (JDict ev) rt =
     (if l \<in> WATCH_CLASSES cfg
      then execute_safety_sequence cfg (JDict pl)
             (rt\<lparr>last_detection := Some (JDict pl),
                 event_log := appendleft (MAX_EVENT_LOG_SIZE cfg) (JDict pl) (event_log rt)\<rparr>)
      else (None, rt\<lparr>last_detection := Some (JDict pl),
                 event_log := appendleft (MAX_EVENT_LOG_SIZE cfg) (JDict pl) (event_log rt)\<rparr>))"
  using assms label_event_nonempty[OF assms]
  by (simp add: handle_event_def label_event_def Let_def)

lemma execute_pass:
  assumes "delays_ok cfg" "\<not> clock rt - serial_cooldown rt < REVERSE_DURATION cfg"
  shows "execute_safety_sequence cfg p rt =
     (None, rt\<lparr>serial_cooldown := clock rt + STOP_TO_REVERSE_DELAY cfg,
               clock := clock rt + STOP_TO_REVERSE_DELAY cfg
                        + (if RESUME_WITH_FORWARD cfg then FORWARD_RESUME_DELAY cfg else 0),
               trace := trace rt @ action_effects cfg (clock rt)\<rparr>)"
  using assms
  by (auto simp add: execute_safety_sequence_def delays_ok_def time_sleep_def emit_def Let_def
      action_effects_def)


lemma handle_at_pass:
  assumes "label_event ev pl l" "l \<in> WATCH_CLASSES cfg" "delays_ok cfg"
    and "REVERSE_DURATION cfg \<le> t - serial_cooldown rt"
  shows "handle_event_at cfg t (JDict ev) rt =
     (None, rt\<lparr>last_detection := Some (JDict pl),
               event_log := appendleft (MAX_EVENT_LOG_SIZE cfg) (JDict pl) (event_log rt),
               serial_cooldown := t + STOP_TO_REVERSE_DELAY cfg,
               clock := t + STOP_TO_REVERSE_DELAY cfg
                        + (if RESUME_WITH_FORWARD cfg then FORWARD_RESUME_DELAY cfg else 0),
               trace := trace rt @ action_effects cfg t\<rparr>)"
  using assms
  by (simp add: handle_event_at_def handle_event_label execute_pass)







subsection \<open>The first trigger\<close>

lemma execute_trace_nonempty: "trace (snd (execute_safety_sequence cfg p rt)) \<noteq> []"
  by (simp add: execute_safety_sequence_def time_sleep_def emit_def Let_def
      split: prod.splits option.splits)

lemma handle_event_quiet:
  assumes "trace (snd (handle_event cfg e rt)) = []"
  shows "serial_cooldown (snd (handle_event cfg e rt)) = serial_cooldown rt \<and> trace rt = []"
  using assms execute_trace_nonempty
  by (auto simp: handle_event_def Let_def split: json.splits if_splits sum.splits bool.splits)

lemma handle_event_at_quiet:
  assumes "trace (snd (handle_event_at cfg t e rt)) = []"
  shows "serial_cooldown (snd (handle_event_at cfg t e rt)) = serial_cooldown rt \<and> trace rt = []"
  using handle_event_quiet[of cfg e "rt\<lparr>clock := t\<rparr>"] assms
  by (simp add: handle_event_at_def)

lemma run_events_quiet:
  "trace (snd (run_events cfg es rt)) = [] \<Longrightarrow>
   serial_cooldown (snd (run_events cfg es rt)) = serial_cooldown rt \<and> trace rt = []"
proof (induction es arbitrary: rt)
  case Nil
  then show ?case by simp
next
  case (Cons te es)
  obtain t e where te: "te = (t, e)" by (cases te)
  obtain r rt' where h: "handle_event_at cfg t e rt = (r, rt')"
    by (cases "handle_event_at cfg t e rt")
  show ?case
  proof (cases r)
    case None
    with Cons.prems te h have "trace (snd (run_events cfg es rt')) = []" by simp
    from Cons.IH[OF this]
    have a: "serial_cooldown (snd (run_events cfg es rt')) = serial_cooldown rt'"
      and b: "trace rt' = []" by simp_all
    from b h handle_event_at_quiet[of cfg t e rt]
    have "serial_cooldown rt' = serial_cooldown rt \<and> trace rt = []" by simp
    with a None te h show ?thesis by simp
  next
    case (Some err)
    with Cons.prems te h have "trace rt' = []" by simp
    with h handle_event_at_quiet[of cfg t e rt]
    have "serial_cooldown rt' = serial_cooldown rt \<and> trace rt = []" by simp
    with Some te h show ?thesis by simp
  qed
qed

lemma execute_starts:
  assumes "\<not> clock rt - serial_cooldown rt < REVERSE_DURATION cfg"
  shows "take 2 (drop (length (trace rt)) (trace (snd (execute_safety_sequence cfg p rt))))
         = [(clock rt, LockAcquire), (clock rt, Send STOP)]"
  using assms
  by (simp add: execute_safety_sequence_def time_sleep_def emit_def Let_def
      split: prod.splits option.splits)

text \<open>
  Claim C9. A constructed runtime has the recorded trigger time 0, and it keeps it while the
  events handled so far touched neither the lock nor the serial line. The first watched
  event after that, handled at a time \<open>t\<close> of at least \<open>REVERSE_DURATION\<close> (measured from the
  epoch, as \<^verbatim>\<open>time.time()\<close> is), passes the cooldown check: it takes the lock and sends STOP,
  and with delays that \<^verbatim>\<open>time.sleep\<close> accepts it runs the whole action sequence.
\<close>

theorem first_trigger_not_blocked:
  assumes init: "init_runtime cfg t0 = Inr rt0"
    and quiet: "trace (snd (run_events cfg pre rt0)) = []"
    and ev: "label_event ev pl l" "l \<in> WATCH_CLASSES cfg"
    and t: "REVERSE_DURATION cfg \<le> t"
  shows "serial_cooldown rt0 = 0
     \<and> serial_cooldown (snd (run_events cfg pre rt0)) = 0
     \<and> take 2 (trace (snd (handle_event_at cfg t (JDict ev) (snd (run_events cfg pre rt0)))))
         = [(t, LockAcquire), (t, Send STOP)]
     \<and> (delays_ok cfg \<longrightarrow>
          trace (snd (handle_event_at cfg t (JDict ev) (snd (run_events cfg pre rt0))))
            = action_effects cfg t)"
proof -
  let ?rt = "snd (run_events cfg pre rt0)"
  have c0: "serial_cooldown rt0 = 0"
    using init by (auto simp: init_runtime_def fresh_runtime_def split: if_splits)
  have c: "serial_cooldown ?rt = 0"
    using run_events_quiet[OF quiet] c0 by simp
  have pass: "REVERSE_DURATION cfg \<le> t - serial_cooldown ?rt"
    using t c by simp
  let ?rt2 = "?rt\<lparr>clock := t, last_detection := Some (JDict pl),
                event_log := appendleft (MAX_EVENT_LOG_SIZE cfg) (JDict pl) (event_log ?rt)\<rparr>"
  have h: "handle_event_at cfg t (JDict ev) ?rt = execute_safety_sequence cfg (JDict pl) ?rt2"
    using ev by (simp add: handle_event_at_def handle_event_label)
  have "\<not> clock ?rt2 - serial_cooldown ?rt2 < REVERSE_DURATION cfg"
    using pass by simp
  from execute_starts[OF this, of "JDict pl"] quiet
  have start: "take 2 (trace (snd (handle_event_at cfg t (JDict ev) ?rt)))
                 = [(t, LockAcquire), (t, Send STOP)]"
    by (simp add: h)
  have full: "trace (snd (handle_event_at cfg t (JDict ev) ?rt)) = action_effects cfg t"
    if "delays_ok cfg"
    using handle_at_pass[OF ev that pass] quiet by simp
  show ?thesis using c0 c start full by simp
qed

theorem first_trigger_not_blocked_witness:
  "init_runtime default_config 0 = Inr (fresh_runtime 0)
   \<and> trace (snd (run_events default_config [(50, JDict (label_message ''dog''))]
               (fresh_runtime 0))) = []
   \<and> label_event (label_message ''person'') (label_payload ''person'') ''person''
   \<and> ''person'' \<in> WATCH_CLASSES default_config
   \<and> REVERSE_DURATION default_config \<le> 100
   \<and> delays_ok default_config
   \<and> sent (trace (snd (handle_event_at default_config 100 (JDict (label_message ''person''))
         (snd (run_events default_config [(50, JDict (label_message ''dog''))]
                 (fresh_runtime 0))))))
       = [(100, STOP), (101, REV 80 (3/2)), (102, FWD 100)]"
proof -
  have init: "init_runtime default_config 0 = Inr (fresh_runtime 0)"
    by (simp add: init_runtime_def default_config_def)
  have quiet: "trace (snd (run_events default_config [(50, JDict (label_message ''dog''))]
                  (fresh_runtime 0))) = []"
    by (simp add: eval_defs)
  have ev: "label_event (label_message ''person'') (label_payload ''person'') ''person''"
    by (simp add: label_message_event)
  have w: "''person'' \<in> WATCH_CLASSES default_config"
    by (simp add: default_config_def)
  have t: "REVERSE_DURATION default_config \<le> 100"
    by (simp add: default_config_def)
  have cfg: "delays_ok default_config"
    by (simp add: delays_ok_def default_config_def)
  show ?thesis
    using first_trigger_not_blocked[OF init quiet ev w t] init quiet ev w t cfg
    by (simp add: action_effects_def default_config_def)
qed

subsection \<open>The event log\<close>

lemma take_append_take: "take n (xs @ take n ys) = take n (xs @ ys)"
  by (simp add: min_def)

lemma fold_appendleft:
  "length entries \<le> nat N \<Longrightarrow>
   fold (appendleft N) ps entries = take (nat N) (rev ps @ entries)"
proof (induction ps arbitrary: entries)
  case Nil
  then show ?case by simp
next
  case (Cons p ps)
  have "length (appendleft N p entries) \<le> nat N" by (simp add: appendleft_def)
  from Cons.IH[OF this] show ?case
    using take_append_take[of "nat N" "rev ps" "p # entries"] by (simp add: appendleft_def)
qed

lemma execute_keeps_log:
  "event_log (snd (execute_safety_sequence cfg p rt)) = event_log rt
   \<and> last_detection (snd (execute_safety_sequence cfg p rt)) = last_detection rt"
  by (simp add: execute_safety_sequence_def time_sleep_def emit_def Let_def
      split: prod.splits option.splits)

lemma handle_event_log:
  assumes "label_event ev pl l"
  shows "event_log (snd (handle_event cfg (JDict ev) rt))
           = appendleft (MAX_EVENT_LOG_SIZE cfg) (JDict pl) (event_log rt)
       \<and> last_detection (snd (handle_event cfg (JDict ev) rt)) = Some (JDict pl)"
  using assms by (simp add: handle_event_label execute_keeps_log)

text \<open>
  Claim C5, amended to a capacity of at least one. Handling a labelled event inserts its
  payload with \<open>appendleft\<close> under the configured bound \<open>N\<close>. For \<open>N \<ge> 1\<close>: any sequence of
  insertions into the empty log leaves the \<open>N\<close> most recent items, newest first, so the
  length never exceeds \<open>N\<close>; an insertion into a full log drops its last, that is oldest,
  entry; and the inserted item is the first entry.
\<close>

theorem event_log_bounded_newest_first:
  assumes "0 < MAX_EVENT_LOG_SIZE cfg" and "label_event ev pl l"
  shows "event_log (snd (handle_event cfg (JDict ev) rt))
           = appendleft (MAX_EVENT_LOG_SIZE cfg) (JDict pl) (event_log rt)
     \<and> fold (appendleft (MAX_EVENT_LOG_SIZE cfg)) ps []
         = take (nat (MAX_EVENT_LOG_SIZE cfg)) (rev ps)
     \<and> length (fold (appendleft (MAX_EVENT_LOG_SIZE cfg)) ps []) \<le> nat (MAX_EVENT_LOG_SIZE cfg)
     \<and> length (appendleft (MAX_EVENT_LOG_SIZE cfg) x entries) \<le> nat (MAX_EVENT_LOG_SIZE cfg)
     \<and> (if length entries = nat (MAX_EVENT_LOG_SIZE cfg)
         then appendleft (MAX_EVENT_LOG_SIZE cfg) x entries = x # butlast entries
         else True)
     \<and> hd (appendleft (MAX_EVENT_LOG_SIZE cfg) x entries) = x"
proof -
  let ?N = "MAX_EVENT_LOG_SIZE cfg"
  have pos: "0 < nat ?N" using assms(1) by simp
  have a: "fold (appendleft ?N) ps [] = take (nat ?N) (rev ps)"
    using fold_appendleft[of "[]" ?N ps] by simp
  have b: "appendleft ?N x entries = x # take (nat ?N - 1) entries"
    using pos by (cases "nat ?N") (simp_all add: appendleft_def)
  have c: "appendleft ?N x entries = x # butlast entries" if "length entries = nat ?N"
    using that b by (simp add: butlast_conv_take)
  have d: "length (appendleft ?N x entries) \<le> nat ?N"
    by (simp add: appendleft_def)
  have e: "length (fold (appendleft ?N) ps []) \<le> nat ?N"
    unfolding a by simp
  have f: "hd (appendleft ?N x entries) = x"
    unfolding b by simp
  have g: "event_log (snd (handle_event cfg (JDict ev) rt))
             = appendleft ?N (JDict pl) (event_log rt)"
    using handle_event_log[OF assms(2)] by simp
  show ?thesis
    using g a e d c f by simp
qed

theorem event_log_bounded_newest_first_witness:
  "0 < MAX_EVENT_LOG_SIZE (default_config\<lparr>MAX_EVENT_LOG_SIZE := 2\<rparr>)
   \<and> label_event (label_message ''person'') (label_payload ''person'') ''person''
   \<and> event_log (snd (handle_event (default_config\<lparr>MAX_EVENT_LOG_SIZE := 2\<rparr>)
         (JDict (label_message ''person''))
         ((fresh_runtime 100)\<lparr>event_log := [JStr ''b'', JStr ''a'']\<rparr>)))
       = [JDict (label_payload ''person''), JStr ''b'']
   \<and> fold (appendleft 2) [JStr ''a'', JStr ''b'', JStr ''c''] [] = [JStr ''c'', JStr ''b'']"
proof -
  have n: "0 < MAX_EVENT_LOG_SIZE (default_config\<lparr>MAX_EVENT_LOG_SIZE := 2\<rparr>)"
    by simp
  have ev: "label_event (label_message ''person'') (label_payload ''person'') ''person''"
    by (simp add: label_message_event)
  show ?thesis
    using event_log_bounded_newest_first[OF n ev,
        of "(fresh_runtime 100)\<lparr>event_log := [JStr ''b'', JStr ''a'']\<rparr>"
           "[JStr ''a'', JStr ''b'', JStr ''c'']" "JStr ''z''" "[]"] n ev
    by (simp add: appendleft_def)
qed

text \<open>
  With the capacity configured as 0 the bounded deque keeps nothing: after a labelled event
  is handled the log is empty, although the event was recorded as the last detection. The
  most recently appended item is then not the first entry of the log.
\<close>

theorem event_log_capacity_zero_counterexample:
  "event_log (snd (handle_event_at (default_config\<lparr>MAX_EVENT_LOG_SIZE := 0\<rparr>) 100
       (JDict (label_message ''person'')) (fresh_runtime 100))) = []
   \<and> last_detection (snd (handle_event_at (default_config\<lparr>MAX_EVENT_LOG_SIZE := 0\<rparr>) 100
       (JDict (label_message ''person'')) (fresh_runtime 100)))
       = Some (JDict (label_payload ''person''))"
  by (simp add: eval_defs)

subsection \<open>Watch-set filtering and the four-event scenario\<close>











section \<open>Properties of the streaming event client\<close>

lemma sleeps_append: "sleeps (xs @ ys) = sleeps xs @ sleeps ys"
  by (induction xs rule: sleeps.induct) auto

lemma sleeps_read_lines: "sleeps (read_lines acc ls) = []"
  by (induction acc ls rule: read_lines.induct) auto

lemma capped_double:
  fixes b :: real
  assumes "0 \<le> b"
  shows "min (2 ^ k * min (b * 2) 30) 30 = min (2 ^ Suc k * b) 30"
proof (cases "b * 2 \<le> 30")
  case True
  then show ?thesis by (simp add: min_def mult.commute mult.left_commute)
next
  case False
  have k: "(1::real) \<le> 2 ^ k" by simp
  have b15: "15 \<le> b" using False by simp
  have "15 * 1 \<le> b * 2 ^ k"
    using b15 k by (intro mult_mono) simp_all
  then have big: "30 \<le> 2 ^ Suc k * b" by (simp add: mult.commute)
  have cap: "30 \<le> 2 ^ k * (30::real)" using k by simp
  have m30: "min (b * 2) 30 = 30" using False by (simp add: min_def)
  have "min (2 ^ k * min (b * 2) 30) 30 = 30" unfolding m30 using cap by (rule min_absorb2)
  moreover have "min (2 ^ Suc k * b) 30 = 30" using big by (rule min_absorb2)
  ultimately show ?thesis by simp
qed

lemma run_loop_failures:
  assumes "0 \<le> b" "b \<le> 30"
  shows "run_loop cfg b (replicate n ConnectFailed @ rest)
       = (concat (map (\<lambda>k. [Connect, Warning, BackoffSleep (min (2 ^ k * b) 30)]) [0..<n])
            @ fst (run_loop cfg (min (2 ^ n * b) 30) rest),
          snd (run_loop cfg (min (2 ^ n * b) 30) rest))"
  using assms
proof (induction n arbitrary: b)
  case 0
  then show ?case by simp
next
  case (Suc n)
  have b': "0 \<le> min (b * 2) 30" "min (b * 2) 30 \<le> 30" using Suc.prems by simp_all
  have m: "map (\<lambda>k. [Connect, Warning, BackoffSleep (min (2 ^ k * b) 30)]) [0..<Suc n]
         = [Connect, Warning, BackoffSleep b]
           # map (\<lambda>k. [Connect, Warning, BackoffSleep (min (2 ^ k * min (b * 2) 30) 30)]) [0..<n]"
    using Suc.prems capped_double[of b]
    by (simp add: map_upt_Suc del: upt_Suc power_Suc)
  show ?case
    using Suc.IH[OF b'] Suc.prems capped_double[of b n]
    by (simp add: m split_def del: upt_Suc power_Suc)
qed


lemma sleeps_failures:
  "sleeps (concat (map (\<lambda>k. [Connect, Warning, BackoffSleep (f k)]) ks)) = map f ks"
  by (induction ks) auto

lemma run_loop_only_failures:
  assumes "0 \<le> b" "b \<le> 30"
  shows "sleeps (fst (run_loop cfg b (replicate n ConnectFailed))) = map (\<lambda>k. min (2 ^ k * b) 30) [0..<n]"
    and "snd (run_loop cfg b (replicate n ConnectFailed)) = None"
  using run_loop_failures[OF assms, of cfg n "[]"]
  by (simp_all add: sleeps_failures)

lemma run_loop_reset:
  assumes B: "0 \<le> SSE_BACKOFF_SEC cfg" "SSE_BACKOFF_SEC cfg \<le> 30"
  shows "0 \<le> b \<Longrightarrow>
     sleeps (fst (run_loop cfg b (pre @ StreamEnded ls # replicate n ConnectFailed)))
       = sleeps (fst (run_loop cfg b (pre @ [StreamEnded ls])))
         @ map (\<lambda>k. min (2 ^ k * SSE_BACKOFF_SEC cfg) 30) [0..<n]"
proof (induction pre arbitrary: b)
  case Nil
  show ?case
    using run_loop_only_failures[OF B, of cfg n]
    by (simp add: split_def Let_def sleeps_append sleeps_read_lines)
next
  case (Cons a pre)
  have b': "0 \<le> min (b * 2) 30" using Cons.prems by simp
  show ?case
  proof (cases a)
    case ConnectFailed
    then show ?thesis using Cons.IH[OF b'] Cons.prems by (simp add: split_def Let_def)
  next
    case (StreamBroke x)
    then show ?thesis using Cons.IH[OF b'] Cons.prems
      by (simp add: split_def Let_def sleeps_append sleeps_read_lines)
  next
    case (StreamEnded x)
    then show ?thesis using Cons.IH[OF B(1)]
      by (simp add: split_def Let_def sleeps_append sleeps_read_lines)
  qed
qed

text \<open>
  Claim C3, amended. The cap is the literal 30 of the source, not a configured value. For a
  base \<open>B = SSE_BACKOFF_SEC\<close> with \<open>0 \<le> B \<le> 30\<close>: \<open>n\<close> consecutive connection failures
  sleep \<open>min (2^k * B) 30\<close> for \<open>k = 0, ..., n - 1\<close> and the loop goes on; and after any
  history of connections, once a stream has ended without a connection error, the next
  \<open>n\<close> consecutive failures sleep the same schedule from \<open>B\<close> again.
\<close>

theorem backoff_schedule:
  assumes "0 \<le> SSE_BACKOFF_SEC cfg" and "SSE_BACKOFF_SEC cfg \<le> 30"
  shows "sleeps (fst (run_client cfg (replicate n ConnectFailed)))
           = map (\<lambda>k. min (2 ^ k * SSE_BACKOFF_SEC cfg) 30) [0..<n]
     \<and> snd (run_client cfg (replicate n ConnectFailed)) = None
     \<and> sleeps (fst (run_client cfg (pre @ StreamEnded ls # replicate n ConnectFailed)))
           = sleeps (fst (run_client cfg (pre @ [StreamEnded ls])))
             @ map (\<lambda>k. min (2 ^ k * SSE_BACKOFF_SEC cfg) 30) [0..<n]"
  using run_loop_only_failures[OF assms, of cfg n] run_loop_reset[OF assms assms(1), of pre ls n]
  by (simp add: run_client_def)

theorem backoff_schedule_witness:
  "0 \<le> SSE_BACKOFF_SEC default_config \<and> SSE_BACKOFF_SEC default_config \<le> 30
   \<and> sleeps (fst (run_client default_config (replicate 5 ConnectFailed))) = [2, 4, 8, 16, 30]
   \<and> sleeps (fst (run_client default_config
         ([ConnectFailed, ConnectFailed] @ StreamEnded [] # replicate 2 ConnectFailed)))
       = [2, 4, 2, 4]"
proof -
  have b: "0 \<le> SSE_BACKOFF_SEC default_config" "SSE_BACKOFF_SEC default_config \<le> 30"
    by (simp_all add: default_config_def)
  have u5: "[0..<5] = [0, 1, 2, 3, 4]" and u2: "[0..<2] = [0, 1]"
    by (simp_all add: upt_rec)
  have pre: "sleeps (fst (run_client default_config ([ConnectFailed, ConnectFailed] @ [StreamEnded []])))
             = [2, 4]"
    by (simp add: run_client_def default_config_def)
  show ?thesis
    using backoff_schedule[OF b, of 5 "[ConnectFailed, ConnectFailed]" "[]"]
      backoff_schedule[OF b, of 2 "[ConnectFailed, ConnectFailed]" "[]"] b pre
    by (simp add: u5 u2 default_config_def)
qed

text \<open>
  Where the claim fails on the code. With a base of 40 s the first sleep is 40 s, not
  \<open>min 40 30\<close>: the cap is applied when the backoff is doubled, not to the base. And after
  two failures a connection that succeeds and then breaks with a connection error does
  not put the backoff back to the base of 2 s: the sleeps go on as 8 s and 16 s.
\<close>

theorem backoff_uncapped_and_unreset_counterexample:
  "sleeps (fst (run_client (default_config\<lparr>SSE_BACKOFF_SEC := 40\<rparr>) [ConnectFailed, ConnectFailed]))
     = [40, 30]
   \<and> min (40::real) 30 = 30
   \<and> sleeps (fst (run_client default_config
        [ConnectFailed, ConnectFailed, StreamBroke [], ConnectFailed])) = [2, 4, 8, 16]"
  by (simp add: run_client_def default_config_def)

section \<open>Properties of the broadcast hub\<close>

lemma broadcast_no_loop: "loop st = None \<Longrightarrow> broadcast p st = st"
proof -
  have "loop s = None \<Longrightarrow> fold (\<lambda>queue s. if loop s = None then s else run_coroutine_threadsafe queue p s) qs s = s" for qs s
    by (induction qs arbitrary: s) auto
  then show "loop st = None \<Longrightarrow> broadcast p st = st" by (simp add: broadcast_def)
qed

lemma fold_schedule:
  "loop s = Some cbs \<Longrightarrow>
   fold (\<lambda>queue s. if loop s = None then s else run_coroutine_threadsafe queue p s) qs s
     = s\<lparr>loop := Some (cbs @ map (\<lambda>q. (q, p)) qs)\<rparr>"
proof (induction qs arbitrary: s cbs)
  case Nil
  then show ?case by simp
next
  case (Cons q qs)
  have "loop (run_coroutine_threadsafe q p s) = Some (cbs @ [(q, p)])"
    using Cons.prems by (simp add: run_coroutine_threadsafe_def)
  from Cons.IH[OF this] show ?case
    using Cons.prems by (simp add: run_coroutine_threadsafe_def)
qed

lemma broadcast_loop:
  "loop st = Some cbs \<Longrightarrow>
   broadcast p st = st\<lparr>loop := Some (cbs @ map (\<lambda>q. (q, p)) (event_queues st))\<rparr>"
  by (simp add: broadcast_def fold_schedule)

lemma filter_map_distinct:
  "distinct qs \<Longrightarrow>
   map snd (filter (\<lambda>cb. fst cb = q) (map (\<lambda>q'. (q', p)) qs)) = (if q \<in> set qs then [p] else [])"
  by (induction qs) auto

lemma stream_broadcast:
  assumes "hub_inv st" "loop st \<noteq> None"
  shows "stream q (broadcast p st) = stream q st @ (if q \<in> set (event_queues st) then [p] else [])"
proof -
  obtain cbs where l: "loop st = Some cbs" using assms(2) by auto
  have d: "distinct (event_queues st)" using assms(1) by (simp add: hub_inv_def)
  show ?thesis
    using filter_map_distinct[OF d, of q p]
    by (simp add: broadcast_loop[OF l] stream_def scheduled_def l)
qed

lemma stream_broadcast_any:
  assumes "hub_inv st"
  shows "stream q (broadcast p st)
       = stream q st @ (if loop st \<noteq> None \<and> q \<in> set (event_queues st) then [p] else [])"
proof (cases "loop st = None")
  case True
  then show ?thesis by (simp add: broadcast_no_loop)
next
  case False
  then show ?thesis using stream_broadcast[OF assms False, of q p] by simp
qed


lemma inv_register: "hub_inv st \<Longrightarrow> hub_inv (snd (register_queue st))"
proof -
  assume i: "hub_inv st"
  let ?n = "next_queue st"
  have a: "distinct (event_queues st)" and b: "\<forall>q \<in> set (event_queues st). q < ?n"
    and c: "\<forall>cb \<in> set (scheduled st). fst cb < ?n"
    and d: "\<forall>q. ?n \<le> q \<longrightarrow> queue_items st q = [] \<and> yielded st q = []"
    using i by (simp_all add: hub_inv_def list_all_iff)
  have a': "distinct (event_queues st @ [?n])" using a b by auto
  have b': "\<forall>q \<in> set (event_queues st @ [?n]). q < Suc ?n" using b by auto
  have c': "\<forall>cb \<in> set (scheduled st). fst cb < Suc ?n" using c by auto
  have d': "\<forall>q. Suc ?n \<le> q \<longrightarrow> ((queue_items st)(?n := [])) q = [] \<and> yielded st q = []"
    using d by auto
  show ?thesis
    using a' b' c' d'
    by (simp add: hub_inv_def register_queue_def Let_def scheduled_def list_all_iff)
qed

lemma inv_unregister: "hub_inv st \<Longrightarrow> hub_inv (unregister_queue q st)"
  by (auto simp: hub_inv_def unregister_queue_def scheduled_def list_all_iff
      split: option.splits)

lemma inv_broadcast: "hub_inv st \<Longrightarrow> hub_inv (broadcast p st)"
proof (cases "loop st")
  case None
  assume "hub_inv st"
  then show ?thesis using None by (simp add: broadcast_no_loop)
next
  case (Some cbs)
  assume "hub_inv st"
  then show ?thesis
    by (auto simp: broadcast_loop[OF Some] hub_inv_def scheduled_def Some list_all_iff)
qed

lemma inv_loop_step: "hub_inv st \<Longrightarrow> hub_inv (loop_step st)"
proof (cases "loop st")
  case None
  assume "hub_inv st"
  then show ?thesis using None by (simp add: loop_step_def)
next
  case (Some cbs)
  assume i: "hub_inv st"
  show ?thesis
  proof (cases cbs)
    case Nil
    then show ?thesis using i Some by (simp add: loop_step_def)
  next
    case (Cons cb rest)
    obtain q p where cb: "cb = (q, p)" by (cases cb)
    have q: "q < next_queue st" and r: "list_all (\<lambda>cb. fst cb < next_queue st) rest"
      using i Some Cons cb by (simp_all add: hub_inv_def scheduled_def)
    have s: "loop_step st = st\<lparr>loop := Some rest,
               queue_items := (queue_items st)(q := queue_items st q @ [p])\<rparr>"
      using Some Cons cb by (simp add: loop_step_def)
    have d: "\<forall>q'. next_queue st \<le> q' \<longrightarrow>
               ((queue_items st)(q := queue_items st q @ [p])) q' = [] \<and> yielded st q' = []"
      using i q by (auto simp: hub_inv_def)
    show ?thesis
      unfolding s using i r d by (simp add: hub_inv_def scheduled_def)
  qed
qed

lemma inv_publisher: "hub_inv st \<Longrightarrow> hub_inv (event_publisher_step q st)"
proof (cases "queue_items st q")
  case Nil
  assume "hub_inv st"
  then show ?thesis using Nil by (simp add: event_publisher_step_def)
next
  case (Cons p rest)
  assume i: "hub_inv st"
  have q: "q < next_queue st"
  proof (rule ccontr)
    assume "\<not> q < next_queue st"
    then have "queue_items st q = []" using i by (simp add: hub_inv_def)
    then show False using Cons by simp
  qed
  have d: "\<forall>q'. next_queue st \<le> q' \<longrightarrow>
             ((queue_items st)(q := rest)) q' = [] \<and> ((yielded st)(q := yielded st q @ [p])) q' = []"
    using i q by (auto simp: hub_inv_def)
  show ?thesis
    using i d Cons by (simp add: hub_inv_def event_publisher_step_def scheduled_def)
qed

lemma inv_step: "hub_inv st \<Longrightarrow> hub_inv (hub_step op st)"
  by (cases op) (simp_all add: inv_register inv_unregister inv_broadcast inv_loop_step inv_publisher)













lemma inv_run_ops: "hub_inv st \<Longrightarrow> hub_inv (run_ops ops st)"
  by (induction ops arbitrary: st) (simp_all add: inv_step)


lemma hub_inv_started: "hub_inv started_state"
  by (simp add: hub_inv_def started_state_def set_event_loop_def init_state_def scheduled_def)

lemmas hub_defs = started_state_def set_event_loop_def init_state_def register_queue_def
  unregister_queue_def broadcast_def run_coroutine_threadsafe_def loop_step_def
  event_publisher_step_def stream_def scheduled_def Let_def



section \<open>Properties of the detection loop\<close>

lemma box_detections_eq:
  "box_detections cfg t r bs
     = map (\<lambda>lb. detection_payload (fst lb) (conf (snd lb)) (xyxy (snd lb)) t)
         (filter (\<lambda>lb. fst lb \<in> WATCH_CLASSES cfg) (map (\<lambda>b. (label_of r (cls b), b)) bs))"
  by (induction bs) (simp_all add: Let_def)

lemma frame_detections_eq:
  "frame_detections cfg t rs
     = map (\<lambda>lb. detection_payload (fst lb) (conf (snd lb)) (xyxy (snd lb)) t) (watched_boxes cfg rs)"
  by (induction rs) (simp_all add: watched_boxes_def box_detections_eq split: option.splits)

lemma max_by_in: "max_by key best xs \<in> set (best # xs)"
  by (induction xs arbitrary: best) auto

lemma max_by_ge: "key best \<le> key (max_by key best xs)"
proof (induction xs arbitrary: best)
  case Nil
  then show ?case by simp
next
  case (Cons x xs)
  show ?case using Cons.IH[of "if key best < key x then x else best"] by (auto split: if_splits)
qed

lemma max_by_max: "x \<in> set (best # xs) \<Longrightarrow> key x \<le> key (max_by key best xs)"
proof (induction xs arbitrary: best)
  case Nil
  then show ?case by simp
next
  case (Cons y ys)
  let ?b = "if key best < key y then y else best"
  have ge: "key ?b \<le> key (max_by key ?b ys)" by (rule max_by_ge)
  from Cons.prems consider "x = best" | "x = y" | "x \<in> set ys" by auto
  then show ?case
  proof cases
    case 1
    then show ?thesis using ge by (auto split: if_splits)
  next
    case 2
    then show ?thesis using ge by (auto split: if_splits)
  next
    case 3
    then show ?thesis using Cons.IH[of ?b] by simp
  qed
qed

lemma confidence_key_payload [simp]: "confidence_key (detection_payload l c bbox t) = c"
  by (simp add: confidence_key_def detection_payload_def dict_get_def)

lemma payload_label_payload [simp]: "payload_label (detection_payload l c bbox t) = JStr l"
  by (simp add: payload_label_def detection_payload_def dict_get_def)

lemma frame_detections_watched:
  "d \<in> set (frame_detections cfg t rs) \<Longrightarrow>
   \<exists>l b. (l, b) \<in> set (watched_boxes cfg rs) \<and> l \<in> WATCH_CLASSES cfg
         \<and> d = detection_payload l (conf b) (xyxy b) t"
proof -
  assume "d \<in> set (frame_detections cfg t rs)"
  then obtain lb where lb: "lb \<in> set (watched_boxes cfg rs)"
    and d: "d = detection_payload (fst lb) (conf (snd lb)) (xyxy (snd lb)) t"
    by (auto simp: frame_detections_eq)
  have "fst lb \<in> WATCH_CLASSES cfg" using lb by (simp add: watched_boxes_def)
  then show ?thesis using lb d by (intro exI[of _ "fst lb"] exI[of _ "snd lb"]) simp
qed

lemma frame_aside [simp]:
  "stream q (update_frame e st) = stream q st"
  "hub_inv (update_frame e st) = hub_inv st"
  "loop (update_frame e st) = loop st"
  "event_queues (update_frame e st) = event_queues st"
  "scheduled (update_frame e st) = scheduled st"
  "last_detection_s (update_frame e st) = last_detection_s st"
  by (simp_all add: update_frame_def stream_def hub_inv_def scheduled_def split: option.splits)

lemma detection_aside [simp]:
  "stream q (update_detection d st) = stream q st"
  "hub_inv (update_detection d st) = hub_inv st"
  "loop (update_detection d st) = loop st"
  "event_queues (update_detection d st) = event_queues st"
  "scheduled (update_detection d st) = scheduled st"
  "last_detection_s (update_detection d st) = Some d"
  by (simp_all add: update_detection_def stream_def hub_inv_def scheduled_def)

lemma broadcast_last_detection: "last_detection_s (broadcast p st) = last_detection_s st"
proof (cases "loop st")
  case None
  then show ?thesis by (simp add: broadcast_no_loop)
next
  case (Some cbs)
  then show ?thesis by (simp add: broadcast_loop)
qed

lemma step_idle:
  assumes "\<not> processed cfg c le \<or> frame_detections cfg (now c) (results c) = []"
  shows "stream q (snd (detection_loop_step cfg c (le, st))) = stream q st"
    and "scheduled (snd (detection_loop_step cfg c (le, st))) = scheduled st"
    and "last_detection_s (snd (detection_loop_step cfg c (le, st))) = last_detection_s st"
  using assms
  by (auto simp: detection_loop_step_def processed_def Let_def split: list.splits)

lemma step_emit:
  assumes "processed cfg c le" and "frame_detections cfg (now c) (results c) = d # ds"
  shows "snd (detection_loop_step cfg c (le, st))
       = broadcast (detection_event (max_by confidence_key d ds))
           (update_detection (max_by confidence_key d ds) (update_frame (frame_b64 c) st))"
  using assms
  by (simp add: detection_loop_step_def processed_def Let_def)

text \<open>
  Claim C10. In any state the hub reaches, one pass of the detection loop builds its
  detections from exactly the boxes whose label is in the watch set. When none is left, or
  the frame was not read, or the capture interval is not over, no stream, no scheduled
  delivery and no last detection changes. Otherwise each registered queue is sent one
  event and no more (none while no event loop is set): the one detection kept as the last
  detection, which is one of the frame's watch-set detections, has a label in the watch
  set, and has a confidence no box of the watch set exceeds.
\<close>

theorem one_event_per_frame:
  assumes "hub_inv st"
  shows "frame_detections cfg (now c) (results c)
           = map (\<lambda>lb. detection_payload (fst lb) (conf (snd lb)) (xyxy (snd lb)) (now c))
               (watched_boxes cfg (results c))
     \<and> (\<forall>lb \<in> set (watched_boxes cfg (results c)). fst lb \<in> WATCH_CLASSES cfg)
     \<and> (case frame_detections cfg (now c) (results c) of
          [] \<Rightarrow> stream q (snd (detection_loop_step cfg c (le, st))) = stream q st
               \<and> scheduled (snd (detection_loop_step cfg c (le, st))) = scheduled st
               \<and> last_detection_s (snd (detection_loop_step cfg c (le, st))) = last_detection_s st
        | d # ds \<Rightarrow>
            (if processed cfg c le
             then stream q (snd (detection_loop_step cfg c (le, st)))
                    = stream q st @ (if loop st \<noteq> None \<and> q \<in> set (event_queues st)
                                     then [detection_event (max_by confidence_key d ds)] else [])
                \<and> last_detection_s (snd (detection_loop_step cfg c (le, st)))
                    = Some (max_by confidence_key d ds)
                \<and> max_by confidence_key d ds \<in> set (d # ds)
                \<and> (\<exists>l \<in> WATCH_CLASSES cfg. payload_label (max_by confidence_key d ds) = JStr l)
                \<and> (\<forall>lb \<in> set (watched_boxes cfg (results c)).
                      conf (snd lb) \<le> confidence_key (max_by confidence_key d ds))
             else stream q (snd (detection_loop_step cfg c (le, st))) = stream q st
                \<and> scheduled (snd (detection_loop_step cfg c (le, st))) = scheduled st
                \<and> last_detection_s (snd (detection_loop_step cfg c (le, st)))
                    = last_detection_s st))"
    (is "?A \<and> ?B \<and> ?C")
proof -
  let ?dets = "frame_detections cfg (now c) (results c)"
  let ?st' = "snd (detection_loop_step cfg c (le, st))"
  have a: "?dets = map (\<lambda>lb. detection_payload (fst lb) (conf (snd lb)) (xyxy (snd lb)) (now c))
               (watched_boxes cfg (results c))"
    by (rule frame_detections_eq)
  have b: "\<forall>lb \<in> set (watched_boxes cfg (results c)). fst lb \<in> WATCH_CLASSES cfg"
    by (simp add: watched_boxes_def)
  show ?thesis
  proof (cases ?dets)
    case Nil
    then have "\<not> processed cfg c le \<or> ?dets = []" by simp
    from step_idle[OF this] have "?C" unfolding Nil by simp
    then show ?thesis by (intro conjI) (rule a, rule b)
  next
    case (Cons d ds)
    let ?top = "max_by confidence_key d ds"
    show ?thesis
    proof (cases "processed cfg c le")
      case False
      then have "\<not> processed cfg c le \<or> ?dets = []" by simp
      from step_idle[OF this] have "?C" unfolding Cons using False by simp
      then show ?thesis by (intro conjI) (rule a, rule b)
    next
      case True
      have s: "?st' = broadcast (detection_event ?top)
                        (update_detection ?top (update_frame (frame_b64 c) st))"
        using True Cons by (rule step_emit)
      have i: "hub_inv (update_detection ?top (update_frame (frame_b64 c) st))"
        using assms by simp
      have st: "stream q ?st' = stream q st
                  @ (if loop st \<noteq> None \<and> q \<in> set (event_queues st)
                     then [detection_event ?top] else [])"
        unfolding s using stream_broadcast_any[OF i, of q "detection_event ?top"] by simp
      have ld: "last_detection_s ?st' = Some ?top"
        unfolding s by (simp add: broadcast_last_detection)
      have mem: "?top \<in> set (d # ds)" by (rule max_by_in)
      then have "?top \<in> set ?dets" using Cons by simp
      from frame_detections_watched[OF this]
      have lab: "\<exists>l \<in> WATCH_CLASSES cfg. payload_label ?top = JStr l" by auto
      have mx: "conf (snd lb) \<le> confidence_key ?top"
        if "lb \<in> set (watched_boxes cfg (results c))" for lb
      proof -
        have "detection_payload (fst lb) (conf (snd lb)) (xyxy (snd lb)) (now c) \<in> set ?dets"
          using that by (simp add: a)
        then have "detection_payload (fst lb) (conf (snd lb)) (xyxy (snd lb)) (now c) \<in> set (d # ds)"
          using Cons by simp
        from max_by_max[OF this, of confidence_key] show ?thesis by simp
      qed
      have "?C" unfolding Cons using True st ld mem lab mx by simp
      then show ?thesis by (intro conjI) (rule a, rule b)
    qed
  qed
qed

theorem one_event_per_frame_witness:
  "hub_inv (run_ops [Register] started_state)
   \<and> loop (run_ops [Register] started_state) \<noteq> None
   \<and> frame_detections default_config 10 (results example_capture)
       = [detection_payload ''person'' (3 / 5) [0, 0, 10, 10] 10,
          detection_payload ''bottle'' (4 / 5) [1, 2, 3, 4] 10]
   \<and> stream 0 (snd (detection_loop_step default_config example_capture
                       (0, run_ops [Register] started_state)))
       = [detection_event (detection_payload ''bottle'' (4 / 5) [1, 2, 3, 4] 10)]
   \<and> last_detection_s (snd (detection_loop_step default_config example_capture
                       (0, run_ops [Register] started_state)))
       = Some (detection_payload ''bottle'' (4 / 5) [1, 2, 3, 4] 10)"
proof -
  let ?st = "run_ops [Register] started_state"
  have i: "hub_inv ?st" using hub_inv_started by (rule inv_run_ops)
  have l: "loop ?st \<noteq> None" by (simp add: hub_defs)
  have q: "event_queues ?st = [0]" and s: "stream 0 ?st = []" by (simp_all add: hub_defs)
  have d: "frame_detections default_config 10 (results example_capture)
       = [detection_payload ''person'' (3 / 5) [0, 0, 10, 10] 10,
          detection_payload ''bottle'' (4 / 5) [1, 2, 3, 4] 10]"
    by (simp add: example_capture_def default_config_def label_of_def Let_def)
  have p: "processed default_config example_capture 0"
    by (simp add: processed_def example_capture_def default_config_def)
  have n: "now example_capture = 10" by (simp add: example_capture_def)
  show ?thesis
    using one_event_per_frame[OF i, of default_config example_capture 0 0] i l q s p
    by (simp add: d n)
qed

section \<open>Properties of the health wait\<close>

lemma elapsed_nonneg: "0 \<le> elapsed p"
  by (simp add: elapsed_def)

lemma poll_time_mono: "poll_time env t0 i \<le> poll_time env t0 (i + k)"
proof (induction k)
  case 0
  then show ?case by simp
next
  case (Suc k)
  then show ?case using elapsed_nonneg[of "env (i + k)"] by simp
qed

lemma wait_loop_inconclusive:
  assumes "t - start_time < timeout" "inconclusive tracked (env i)"
  shows "wait_loop url tracked env timeout start_time i t
       = ((t, HttpGet url) # (t + elapsed (env i), SleepFor 1)
            # fst (wait_loop url tracked env timeout start_time (Suc i) (t + elapsed (env i) + 1)),
          snd (wait_loop url tracked env timeout start_time (Suc i) (t + elapsed (env i) + 1)))"
  using assms
  by (subst wait_loop.simps) (auto simp: inconclusive_def Let_def split: if_splits)

lemma wait_loop_prefix:
  assumes "\<forall>j. i \<le> j \<and> j < i + k \<longrightarrow> inconclusive tracked (env j)"
    and "poll_time env t0 (i + k) - start_time < timeout"
  shows "wait_loop url tracked env timeout start_time i (poll_time env t0 i)
       = (concat (map (poll_effects url env t0) [i..<i + k])
            @ fst (wait_loop url tracked env timeout start_time (i + k) (poll_time env t0 (i + k))),
          snd (wait_loop url tracked env timeout start_time (i + k) (poll_time env t0 (i + k))))"
  using assms
proof (induction k arbitrary: i)
  case 0
  then show ?case by simp
next
  case (Suc k)
  have inc: "inconclusive tracked (env i)" using Suc.prems(1) by simp
  have "poll_time env t0 i \<le> poll_time env t0 (i + Suc k)" by (rule poll_time_mono)
  then have reach: "poll_time env t0 i - start_time < timeout" using Suc.prems(2) by simp
  have a: "\<forall>j. Suc i \<le> j \<and> j < Suc i + k \<longrightarrow> inconclusive tracked (env j)"
    using Suc.prems(1) by simp
  have b: "poll_time env t0 (Suc i + k) - start_time < timeout"
    using Suc.prems(2) by simp
  have u: "[i..<Suc (i + k)] = i # [Suc i..<Suc (i + k)]"
    by (simp add: upt_conv_Cons)
  show ?case
    using wait_loop_inconclusive[where env = env and i = i and url = url, OF reach inc]
      Suc.IH[OF a b]
    by (simp add: u poll_effects_def del: upt_Suc)
qed

lemma wait_loop_timeout:
  assumes "\<forall>j. i \<le> j \<and> j < i + k \<longrightarrow> inconclusive tracked (env j)"
    and "timeout \<le> poll_time env t0 (i + k) - start_time"
  shows "snd (wait_loop url tracked env timeout start_time i (poll_time env t0 i))
       = Some (TimeoutError (''Timed out waiting for YOLO health endpoint at '' @ url))"
  using assms
proof (induction k arbitrary: i)
  case 0
  then show ?case by (subst wait_loop.simps) simp
next
  case (Suc k)
  show ?case
  proof (cases "poll_time env t0 i - start_time < timeout")
    case False
    then show ?thesis by (subst wait_loop.simps) simp
  next
    case True
    have inc: "inconclusive tracked (env i)" using Suc.prems(1) by simp
    have a: "\<forall>j. Suc i \<le> j \<and> j < Suc i + k \<longrightarrow> inconclusive tracked (env j)"
      using Suc.prems(1) by simp
    have b: "timeout \<le> poll_time env t0 (Suc i + k) - start_time"
      using Suc.prems(2) by simp
    show ?thesis
      using wait_loop_inconclusive[where env = env and i = i and url = url, OF True inc]
        Suc.IH[OF a b] by simp
  qed
qed

lemma wait_loop_outcomes:
  "snd (wait_loop url tracked env timeout start_time i t) = None
   \<or> snd (wait_loop url tracked env timeout start_time i t)
       = Some (RuntimeError ''YOLO server process terminated unexpectedly'')
   \<or> snd (wait_loop url tracked env timeout start_time i t)
       = Some (TimeoutError (''Timed out waiting for YOLO health endpoint at '' @ url))"
proof (induction url tracked env timeout start_time i t rule: wait_loop.induct)
  case (1 url tracked env timeout start_time i t)
  show ?case
  proof (cases "t - start_time < timeout \<and> (if tracked then poll (env i) else None) = None
                \<and> response (env i) \<noteq> Status 200")
    case True
    then have inc: "inconclusive tracked (env i)" and reach: "t - start_time < timeout"
      by (auto simp: inconclusive_def split: if_splits)
    from wait_loop_inconclusive[where env = env and i = i and url = url, OF reach inc] True 1
    show ?thesis by simp
  next
    case False
    then show ?thesis
      by (subst (1 2 3) wait_loop.simps) (auto split: option.splits if_splits)
  qed
qed

lemma wait_loop_exit:
  assumes "t - start_time < timeout" "tracked" "poll (env i) = Some rc"
  shows "wait_loop url tracked env timeout start_time i t
       = ([(t, LogError ''YOLO server exited early with code %s'' rc)],
          Some (RuntimeError ''YOLO server process terminated unexpectedly''))"
  using assms by (subst wait_loop.simps) simp

lemma wait_loop_healthy:
  assumes "t - start_time < timeout" "if tracked then poll (env i) = None else True"
    "response (env i) = Status 200"
  shows "wait_loop url tracked env timeout start_time i t
       = ([(t, HttpGet url), (t + elapsed (env i), LogInfo ''YOLO health endpoint reachable'')], None)"
  using assms by (subst wait_loop.simps) (auto split: if_splits)

text \<open>
  Claim C7, amended in what the early-exit error carries. Let the first \<open>k\<close> passes neither
  see the child exited nor get status 200; pass \<open>k\<close> starts at \<open>poll_time env t0 k\<close>.
  If that is before the deadline and the child is seen exited with code \<open>rc\<close>, the wait logs
  an error record carrying \<open>rc\<close> and raises a \<^verbatim>\<open>RuntimeError\<close> whose message is fixed and
  does not carry the code. If it is before the deadline, the child is alive and the
  endpoint answers 200, the wait returns. If the deadline has passed by then, the wait
  raises a \<^verbatim>\<open>TimeoutError\<close> whose message ends with the polled URL. Whatever the world,
  the wait ends in one of these three ways. Consecutive polls are one second plus the
  duration of the request apart.
\<close>

theorem health_wait:
  assumes "\<forall>j<k. inconclusive tracked (env j)"
  shows "(poll_time env t0 k - t0 < timeout \<and> tracked \<and> poll (env k) = Some rc \<longrightarrow>
            wait_for_yolo_health cfg tracked env timeout t0
              = (concat (map (poll_effects (health_url cfg) env t0) [0..<k])
                   @ [(poll_time env t0 k, LogError ''YOLO server exited early with code %s'' rc)],
                 Some (RuntimeError ''YOLO server process terminated unexpectedly'')))
     \<and> (poll_time env t0 k - t0 < timeout \<and> (if tracked then poll (env k) = None else True)
          \<and> response (env k) = Status 200 \<longrightarrow>
            wait_for_yolo_health cfg tracked env timeout t0
              = (concat (map (poll_effects (health_url cfg) env t0) [0..<k])
                   @ [(poll_time env t0 k, HttpGet (health_url cfg)),
                      (poll_time env t0 k + elapsed (env k),
                       LogInfo ''YOLO health endpoint reachable'')],
                 None))
     \<and> (timeout \<le> poll_time env t0 k - t0 \<longrightarrow>
            snd (wait_for_yolo_health cfg tracked env timeout t0)
              = Some (TimeoutError (''Timed out waiting for YOLO health endpoint at ''
                                     @ health_url cfg)))
     \<and> (snd (wait_for_yolo_health cfg tracked' env' timeout' t0') = None
        \<or> snd (wait_for_yolo_health cfg tracked' env' timeout' t0')
            = Some (RuntimeError ''YOLO server process terminated unexpectedly'')
        \<or> snd (wait_for_yolo_health cfg tracked' env' timeout' t0')
            = Some (TimeoutError (''Timed out waiting for YOLO health endpoint at ''
                                   @ health_url cfg)))
     \<and> poll_time env t0 (Suc k) - poll_time env t0 k = 1 + elapsed (env k)
     \<and> 0 \<le> elapsed (env k)"
proof -
  let ?url = "health_url cfg"
  have inc: "\<forall>j. 0 \<le> j \<and> j < 0 + k \<longrightarrow> inconclusive tracked (env j)"
    using assms by simp
  have pre: "wait_for_yolo_health cfg tracked env timeout t0
       = (concat (map (poll_effects ?url env t0) [0..<k])
            @ fst (wait_loop ?url tracked env timeout t0 k (poll_time env t0 k)),
          snd (wait_loop ?url tracked env timeout t0 k (poll_time env t0 k)))"
    if "poll_time env t0 k - t0 < timeout"
    using wait_loop_prefix[where i = 0 and k = k and url = ?url, OF inc] that
    by (simp add: wait_for_yolo_health_def)
  have a: "wait_for_yolo_health cfg tracked env timeout t0
              = (concat (map (poll_effects ?url env t0) [0..<k])
                   @ [(poll_time env t0 k, LogError ''YOLO server exited early with code %s'' rc)],
                 Some (RuntimeError ''YOLO server process terminated unexpectedly''))"
    if "poll_time env t0 k - t0 < timeout" "tracked" "poll (env k) = Some rc"
    using pre[OF that(1)] wait_loop_exit[where env = env and i = k and url = ?url, OF that]
    by simp
  have b: "wait_for_yolo_health cfg tracked env timeout t0
              = (concat (map (poll_effects ?url env t0) [0..<k])
                   @ [(poll_time env t0 k, HttpGet ?url),
                      (poll_time env t0 k + elapsed (env k),
                       LogInfo ''YOLO health endpoint reachable'')],
                 None)"
    if "poll_time env t0 k - t0 < timeout" "if tracked then poll (env k) = None else True"
       "response (env k) = Status 200"
    using pre[OF that(1)] wait_loop_healthy[where env = env and i = k and url = ?url, OF that]
    by simp
  have c: "snd (wait_for_yolo_health cfg tracked env timeout t0)
              = Some (TimeoutError (''Timed out waiting for YOLO health endpoint at '' @ ?url))"
    if "timeout \<le> poll_time env t0 k - t0"
    using wait_loop_timeout[where i = 0 and k = k and url = ?url, OF inc] that
    by (simp add: wait_for_yolo_health_def)
  have d: "snd (wait_for_yolo_health cfg tracked' env' timeout' t0') = None
        \<or> snd (wait_for_yolo_health cfg tracked' env' timeout' t0')
            = Some (RuntimeError ''YOLO server process terminated unexpectedly'')
        \<or> snd (wait_for_yolo_health cfg tracked' env' timeout' t0')
            = Some (TimeoutError (''Timed out waiting for YOLO health endpoint at '' @ ?url))"
    unfolding wait_for_yolo_health_def by (rule wait_loop_outcomes)
  have e: "poll_time env t0 (Suc k) - poll_time env t0 k = 1 + elapsed (env k)" by simp
  show ?thesis
  proof (intro conjI impI)
    show "poll_time env t0 (Suc k) - poll_time env t0 k = 1 + elapsed (env k)" by (rule e)
    show "0 \<le> elapsed (env k)" by (rule elapsed_nonneg)
  qed (use a b c d in \<open>simp_all\<close>)
qed

lemma default_health_url: "health_url default_config = ''http://127.0.0.1:8001/health''"
  by (simp add: health_url_def default_config_def str_int_def str_nat.simps char_of_def
      bit_iff_odd)

lemma poll_time_never_healthy: "poll_time never_healthy_env t0 k = t0 + real k"
  by (induction k) (simp_all add: never_healthy_env_def elapsed_def)

theorem health_wait_witness:
  "inconclusive True (healthy_from_env 2 0) \<and> inconclusive True (healthy_from_env 2 1)
   \<and> wait_for_yolo_health default_config True (healthy_from_env 2) 45 0
       = ([(0, HttpGet ''http://127.0.0.1:8001/health''), (1/2, SleepFor 1),
           (3/2, HttpGet ''http://127.0.0.1:8001/health''), (2, SleepFor 1),
           (3, HttpGet ''http://127.0.0.1:8001/health''),
           (7/2, LogInfo ''YOLO health endpoint reachable'')], None)
   \<and> inconclusive True (never_healthy_env 0) \<and> inconclusive True (never_healthy_env 44)
   \<and> snd (wait_for_yolo_health default_config True never_healthy_env 45 0)
       = Some (TimeoutError
           ''Timed out waiting for YOLO health endpoint at http://127.0.0.1:8001/health'')
   \<and> wait_for_yolo_health default_config True (exited_env 3) 45 0
       = ([(0, LogError ''YOLO server exited early with code %s'' 3)],
          Some (RuntimeError ''YOLO server process terminated unexpectedly''))"
proof -
  have h: "\<forall>j<2. inconclusive True (healthy_from_env 2 j)"
    by (simp add: inconclusive_def healthy_from_env_def)
  have n: "\<forall>j<45. inconclusive True (never_healthy_env j)"
    by (simp add: inconclusive_def never_healthy_env_def)
  have z: "\<forall>j<0. inconclusive True (exited_env 3 j)" by simp
  have u2: "[0..<2] = [0, 1]" by (simp add: upt_rec)
  have p2: "poll_time (healthy_from_env 2) 0 2 = 3"
    "poll_time (healthy_from_env 2) 0 1 = 3 / 2"
    by (simp_all add: numeral_2_eq_2 healthy_from_env_def elapsed_def)
  have e: "elapsed (healthy_from_env 2 j) = 1 / 2" for j
    by (simp add: healthy_from_env_def elapsed_def)
  have r: "response (healthy_from_env 2 2) = Status 200" "poll (healthy_from_env 2 2) = None"
    by (simp_all add: healthy_from_env_def)
  have x: "poll (exited_env 3 0) = Some 3" by (simp add: exited_env_def)
  show ?thesis
    using health_wait[OF h, where ?t0.0 = 0 and timeout = 45 and cfg = default_config]
      health_wait[OF n, where ?t0.0 = 0 and timeout = 45 and cfg = default_config]
      health_wait[OF z, where ?t0.0 = 0 and timeout = 45 and cfg = default_config and rc = 3]
      h n
    by (simp add: default_health_url u2 p2 e r x poll_effects_def poll_time_never_healthy)
qed

text \<open>
  Where the claim fails on the code: for a child that exited with code 3 and for one that
  exited with code 7 the error raised is the same, so it does not include the exit code.
  The code is in the error record logged before the raise.
\<close>

theorem exit_code_not_in_error_counterexample:
  "snd (wait_for_yolo_health default_config True (exited_env 3) 45 0)
     = Some (RuntimeError ''YOLO server process terminated unexpectedly'')
   \<and> snd (wait_for_yolo_health default_config True (exited_env 7) 45 0)
     = Some (RuntimeError ''YOLO server process terminated unexpectedly'')
   \<and> fst (wait_for_yolo_health default_config True (exited_env 3) 45 0)
     = [(0, LogError ''YOLO server exited early with code %s'' 3)]"
  by (simp add: wait_for_yolo_health_def wait_loop.simps exited_env_def)

section \<open>The discovery helper does not load\<close>

text \<open>
  Claim C8 is about what \<^verbatim>\<open>discover_first\<close> returns. The module that defines it does not
  compile: the function header at line 4 is followed by \<^verbatim>\<open>import logging\<close> at the same
  indentation, which Python rejects with an \<^verbatim>\<open>IndentationError\<close> at line 5. No call of
  \<^verbatim>\<open>discover_first\<close> can therefore return anything.
\<close>

theorem mdns_discover_does_not_compile:
  "check_blocks mdns_discover_head = Some (IndentationError 5)"
  by (simp add: mdns_discover_head_def opens_block_def indent_of_def)

end
